theory Spec2Isabelle
  imports Main "HOL-Library.Word" "HOL-Library.Multiset"
begin

unbundle bit_operations_syntax

section \<open>Library functions sgvc calls\<close>

text \<open>
  sgvc is one Go file. The functions of Go's standard library it calls are modelled here
  as far as its behaviour depends on them. Three of them are taken as parameters, bundled
  in the record \<open>golib\<close>: \<open>time.Parse(time.RFC3339, _)\<close>, \<open>Time.Format(time.RFC3339)\<close>
  and \<open>strconv.Quote\<close>. Strings are byte strings (\<open>char list\<close>), as Go's are.
\<close>

abbreviation tab :: char where "tab \<equiv> CHR 0x09"
abbreviation nl :: char where "nl \<equiv> CHR 0x0A"
abbreviation cr :: char where "cr \<equiv> CHR 0x0D"

record 't golib =
  timeParse :: "string \<Rightarrow> 't option"
  timeFormat :: "'t \<Rightarrow> string"
  quote :: "string \<Rightarrow> string"

text \<open>\<open>strings.Split(s, sep)\<close> for a separator of one byte: always at least one part.\<close>

fun split :: "char \<Rightarrow> string \<Rightarrow> string list" where
  "split sep [] = [[]]"
| "split sep (c # cs) =
     (if c = sep then [] # split sep cs
      else (case split sep cs of [] \<Rightarrow> [[c]] | p # ps \<Rightarrow> (c # p) # ps))"

text \<open>Decimal digits, for \<open>strconv.Atoi\<close>, \<open>strconv.ParseUint\<close> and \<open>fmt\<close>'s \<open>%d\<close>.\<close>

definition digitVal :: "char \<Rightarrow> nat option" where
  "digitVal c =
     (let n = (of_char c :: nat) in if 48 \<le> n \<and> n \<le> 57 then Some (n - 48) else None)"

fun parseDigitsFrom :: "nat \<Rightarrow> string \<Rightarrow> nat option" where
  "parseDigitsFrom n [] = Some n"
| "parseDigitsFrom n (c # cs) =
     (case digitVal c of None \<Rightarrow> None | Some d \<Rightarrow> parseDigitsFrom (n * 10 + d) cs)"

definition parseDigits :: "string \<Rightarrow> nat option" where
  "parseDigits s = (if s = [] then None else parseDigitsFrom 0 s)"

text \<open>
  \<open>strconv.Atoi\<close> on a platform whose \<open>int\<close> has 64 bits: an optional sign, then at
  least one decimal digit and nothing else, and a result between \<open>-2^63\<close> and
  \<open>2^63 - 1\<close>; every other string is an error.
\<close>

definition Atoi :: "string \<Rightarrow> int option" where
  "Atoi s =
     (case s of
        [] \<Rightarrow> None
      | c # cs \<Rightarrow>
          (case parseDigits (if c = CHR ''-'' \<or> c = CHR ''+'' then cs else s) of
             None \<Rightarrow> None
           | Some n \<Rightarrow>
               (let v = (if c = CHR ''-'' then - int n else int n)
                in if - (2 ^ 63) \<le> v \<and> v < 2 ^ 63 then Some v else None)))"

text \<open>\<open>strconv.ParseUint(s, 10, 32)\<close>: decimal digits only, below \<open>2^32\<close>.\<close>

definition ParseUint32 :: "string \<Rightarrow> nat option" where
  "ParseUint32 s =
     (case parseDigits s of
        None \<Rightarrow> None
      | Some n \<Rightarrow> if n < 2 ^ 32 then Some n else None)"

definition digitChar :: "nat \<Rightarrow> char" where
  "digitChar d = ''0123456789'' ! d"

fun digits :: "nat \<Rightarrow> string" where
  "digits n = (if n < 10 then [digitChar n] else digits (n div 10) @ [digitChar (n mod 10)])"

declare digits.simps [simp del]

text \<open>\<open>%d\<close> of an integer.\<close>

definition fmtD :: "int \<Rightarrow> string" where
  "fmtD n = (if n < 0 then CHR ''-'' # digits (nat (- n)) else digits (nat n))"

text \<open>
  \<open>%0*d\<close> with width \<open>w\<close>: zeros are added after the sign, and the sign counts in the
  width (\<open>%04d\<close> prints \<open>-1\<close> as \<open>-001\<close>).
\<close>

definition padZero :: "nat \<Rightarrow> string \<Rightarrow> string" where
  "padZero w s = replicate (w - length s) (CHR ''0'') @ s"

definition fmtPadD :: "nat \<Rightarrow> int \<Rightarrow> string" where
  "fmtPadD w n =
     (if n < 0 then CHR ''-'' # padZero (w - 1) (digits (nat (- n)))
      else padZero w (digits (nat n)))"

text \<open>\<open>%x\<close> of a byte slice: two lower-case hexadecimal digits per byte.\<close>

definition hexDigit :: "nat \<Rightarrow> char" where
  "hexDigit d = ''0123456789abcdef'' ! d"

definition fmtX :: "string \<Rightarrow> string" where
  "fmtX bs = concat (map (\<lambda>c. [hexDigit ((of_char c :: nat) div 16), hexDigit ((of_char c :: nat) mod 16)]) bs)"

text \<open>
  \<open>crc32.ChecksumIEEE\<close>: the reflected CRC-32 with polynomial \<open>0xEDB88320\<close>, initial
  value and final complement \<open>0xFFFFFFFF\<close>, computed bit by bit: eight steps for a byte.
\<close>

definition crcBit :: "32 word \<Rightarrow> 32 word" where
  "crcBit c = (if c AND 1 = 1 then drop_bit 1 c XOR 0xEDB88320 else drop_bit 1 c)"

definition crcByte :: "32 word \<Rightarrow> char \<Rightarrow> 32 word" where
  "crcByte c b =
     crcBit (crcBit (crcBit (crcBit (crcBit (crcBit (crcBit (crcBit
       (c XOR of_nat (of_char b)))))))))"

definition ChecksumIEEE :: "string \<Rightarrow> 32 word" where
  "ChecksumIEEE bs = NOT (foldl crcByte 0xFFFFFFFF bs)"

text \<open>
  \<open>strings.Compare\<close>: byte-wise lexicographic order, as \<open>-1\<close>, \<open>0\<close> or \<open>1\<close>.
\<close>

fun Compare :: "string \<Rightarrow> string \<Rightarrow> int" where
  "Compare [] [] = 0"
| "Compare [] (b # bs) = - 1"
| "Compare (a # as) [] = 1"
| "Compare (a # as) (b # bs) =
     (if (of_char a :: nat) < of_char b then - 1
      else if (of_char b :: nat) < of_char a then 1
      else Compare as bs)"

section \<open>The data model\<close>

text \<open>
  \<open>type commit struct\<close>. The field \<open>when\<close> is \<open>cwhen\<close> here; \<open>descs\<close>, which only
  \<open>treeOfCommits\<close> writes, lives in the forest that function returns. Go's \<open>int\<close> has
  64 bits: a value of it is an \<open>int\<close> here that \<open>Atoi\<close> keeps between \<open>-2^63\<close> and
  \<open>2^63 - 1\<close>, and \<open>wrapInt\<close> is the wrap-around of its addition and subtraction.
\<close>

definition wrapInt :: "int \<Rightarrow> int" where
  "wrapInt x = (x + 2 ^ 63) mod 2 ^ 64 - 2 ^ 63"

record 't commit =
  path :: string
  cwhen :: 't
  version :: int
  basedOn :: int
  pathSig :: string
  dataCrc :: "32 word"
  changes :: string

text \<open>\<open>type index struct\<close>.\<close>

record 't index =
  workDir :: string
  commitsFile :: string
  commits :: "'t commit list"

datatype error =
    Malformed string
  | Fatal nat error
  | TokenTooLong
  | IOError string
  | InvalidBase int
  | FailedToCommitContents string
  | FailedToOpenIndex string
  | FailedToCommitIndex string
  | CannotFindVersion int string
  | CorruptedFile "32 word" "32 word"
  | NilDereference
  | Usage

abbreviation maxVersionLength :: nat where "maxVersionLength \<equiv> 4"

text \<open>\<open>func (cmt *commit) serialize() string\<close>\<close>

definition serialize :: "'t golib \<Rightarrow> 't commit \<Rightarrow> string" where
  "serialize lib cmt =
     path cmt @ [tab] @ timeFormat lib (cwhen cmt) @ [tab] @
     fmtPadD maxVersionLength (version cmt) @ [tab] @
     fmtPadD maxVersionLength (basedOn cmt) @ [tab] @
     pathSig cmt @ [tab] @ digits (unat (dataCrc cmt)) @ [tab] @ changes cmt"

text \<open>\<open>func deserializeCommit(s string) (*commit, error)\<close>\<close>

definition deserializeCommit :: "'t golib \<Rightarrow> string \<Rightarrow> error + 't commit" where
  "deserializeCommit lib s =
     (let parts = split tab s in
      if length parts \<noteq> 7 then Inl (Malformed ''malformed line'')
      else
        (case timeParse lib (parts ! 1) of
           None \<Rightarrow> Inl (Malformed ''malformed timestamp'')
         | Some cwhen' \<Rightarrow>
        (case Atoi (parts ! 2) of
           None \<Rightarrow> Inl (Malformed ''malformed version'')
         | Some cversion \<Rightarrow>
        (case Atoi (parts ! 3) of
           None \<Rightarrow> Inl (Malformed ''malformed parent'')
         | Some cbasedOn \<Rightarrow>
        (case ParseUint32 (parts ! 5) of
           None \<Rightarrow> Inl (Malformed ''malformed data crc'')
         | Some crc \<Rightarrow>
             Inr \<lparr>path = parts ! 0, cwhen = cwhen', version = cversion,
                  basedOn = cbasedOn, pathSig = parts ! 4,
                  dataCrc = of_nat crc, changes = parts ! 6\<rparr>)))))"


section \<open>The file system and the calls that change it\<close>

text \<open>
  The files sgvc reads and writes: a map from a file's path to its bytes, holding the
  files that can be read. \<open>trace\<close> lists the writing calls \<open>commit\<close> has made, in program
  order, each with its success. Whether a writing call succeeds is the operating
  system's choice: \<open>osenv\<close> gives the outcome of each call of one \<open>commit\<close>. A failed
  \<open>os.WriteFile\<close> may leave the file with other bytes (\<open>Fail (Some r)\<close>) or as it was
  (\<open>Fail None\<close>); a failed \<open>Fprintln\<close> may have appended some bytes.
\<close>

datatype event =
    WriteFile string string bool
  | OpenFile string bool
  | Fprintln string string bool

record world =
  fs :: "string \<rightharpoonup> string"
  trace :: "event list"

datatype outcome = Ok | Fail "string option"

record osenv =
  writeFileOutcome :: outcome
  openFileOk :: bool
  fprintlnOutcome :: outcome

text \<open>What getIndex needs of the operating system.\<close>

record startenv =
  userCacheDir :: "string option"
  mkdirAllOk :: bool
  createOk :: bool

text \<open>\<open>filepath.Join\<close> of a clean directory path and a file name.\<close>

definition Join :: "string \<Rightarrow> string \<Rightarrow> string" where
  "Join dir name = dir @ ''/'' @ name"

section \<open>Loading the index\<close>

text \<open>
  \<open>bufio.Scanner\<close> with \<open>bufio.ScanLines\<close>: the tokens are the lines of the file, the
  last one also when no newline ends it, each without one trailing carriage return. A
  line of \<open>bufio.MaxScanTokenSize\<close> bytes or more stops the scan with
  \<open>bufio.ErrTooLong\<close>.
\<close>

abbreviation MaxScanTokenSize :: nat where "MaxScanTokenSize \<equiv> 65536"

definition rawLines :: "string \<Rightarrow> string list" where
  "rawLines data = (let ps = split nl data in if last ps = [] then butlast ps else ps)"

definition dropCR :: "string \<Rightarrow> string" where
  "dropCR l = (if l \<noteq> [] \<and> last l = cr then butlast l else l)"

text \<open>
  The loop of \<open>loadCommits\<close> over the scanner: \<open>nlines\<close> counts the lines read, the
  commits read so far are \<open>acc\<close>. \<open>log.Fatalf\<close> ends the process: \<open>Fatal\<close>.
\<close>

fun scanCommits :: "'t golib \<Rightarrow> nat \<Rightarrow> string list \<Rightarrow> 't commit list \<Rightarrow> error + 't commit list" where
  "scanCommits lib nlines [] acc = Inr acc"
| "scanCommits lib nlines (l # ls) acc =
     (if MaxScanTokenSize \<le> length l then Inl TokenTooLong
      else
        (case deserializeCommit lib (dropCR l) of
           Inl e \<Rightarrow> Inl (Fatal (nlines + 1) e)
         | Inr cmt \<Rightarrow> scanCommits lib (nlines + 1) ls (acc @ [cmt])))"

text \<open>
  The comparison \<open>loadCommits\<close> sorts with: ascending by path and descending by version.
  \<open>slices.SortFunc\<close> is modelled by insertion sort; where two commits compare equal the
  library leaves their order open, and the model keeps the order of the file.
\<close>

definition cmpCommits :: "'t commit \<Rightarrow> 't commit \<Rightarrow> int" where
  "cmpCommits a b =
     (let c = Compare (path a) (path b)
      in if c \<noteq> 0 then c else wrapInt (version b - version a))"

fun insertCommit :: "'t commit \<Rightarrow> 't commit list \<Rightarrow> 't commit list" where
  "insertCommit c [] = [c]"
| "insertCommit c (d # ds) =
     (if cmpCommits c d \<le> 0 then c # d # ds else d # insertCommit c ds)"

definition SortFunc :: "'t commit list \<Rightarrow> 't commit list" where
  "SortFunc cs = foldr insertCommit cs []"

text \<open>\<open>func (idx *index) loadCommits() error\<close>: the index with its commits set.\<close>

definition loadCommits :: "'t golib \<Rightarrow> 't index \<Rightarrow> world \<Rightarrow> error + 't index" where
  "loadCommits lib idx w =
     (case fs w (commitsFile idx) of
        None \<Rightarrow> Inl (IOError (commitsFile idx))
      | Some data \<Rightarrow>
          (case scanCommits lib 0 (rawLines data) [] of
             Inl e \<Rightarrow> Inl e
           | Inr cs \<Rightarrow> Inr (idx\<lparr>commits := SortFunc cs\<rparr>)))"

text \<open>\<open>func getIndex() (*index, error)\<close>: an index file that is missing is created empty.\<close>

definition getIndex :: "'t golib \<Rightarrow> startenv \<Rightarrow> world \<Rightarrow> (error + 't index) \<times> world" where
  "getIndex lib env w =
     (case userCacheDir env of
        None \<Rightarrow> (Inl (IOError ''UserCacheDir''), w)
      | Some cacheDir \<Rightarrow>
          (let workDir' = Join cacheDir ''sgvc'' in
           if \<not> mkdirAllOk env then (Inl (IOError workDir'), w)
           else
             (let commitsFile' = Join workDir' ''index'' in
              if fs w commitsFile' = None \<and> \<not> createOk env
              then (Inl (IOError commitsFile'), w)
              else
                (let w' = (if fs w commitsFile' = None
                           then w\<lparr>fs := (fs w)(commitsFile' \<mapsto> [])\<rparr> else w);
                     idx = \<lparr>workDir = workDir', commitsFile = commitsFile', commits = []\<rparr>
                 in (loadCommits lib idx w', w')))))"

section \<open>Queries on the loaded index\<close>

text \<open>\<open>func (idx *index) currVersion(path string) int\<close>\<close>

definition currVersion :: "'t index \<Rightarrow> string \<Rightarrow> int" where
  "currVersion idx p =
     foldl (\<lambda>v cmt. if path cmt = p \<and> version cmt > v then version cmt else v) 0 (commits idx)"

text \<open>\<open>func (idx *index) filter(path string) []*commit\<close>\<close>

definition filter_commits :: "'t index \<Rightarrow> string \<Rightarrow> 't commit list" where
  "filter_commits idx p =
     (if p = [] then commits idx
      else foldl (\<lambda>cs cmt. if path cmt = p then cs @ [cmt] else cs) [] (commits idx))"

text \<open>\<open>func (idx *index) filePath(cmt *commit) string\<close>\<close>

definition filePath :: "'t index \<Rightarrow> 't commit \<Rightarrow> string" where
  "filePath idx cmt =
     Join (workDir idx) (pathSig cmt @ ''-'' @ fmtPadD maxVersionLength (version cmt))"

text \<open>The loop of \<open>extract\<close>: the first commit of the path and version.\<close>

fun findCommit :: "'t commit list \<Rightarrow> string \<Rightarrow> int \<Rightarrow> 't commit option" where
  "findCommit [] p v = None"
| "findCommit (c # cs) p v = (if path c = p \<and> version c = v then Some c else findCommit cs p v)"

text \<open>
  \<open>func (idx *index) extract(path string, version int) ([]byte, error)\<close>, here
  \<open>index_extract\<close>.
\<close>

definition index_extract :: "'t index \<Rightarrow> world \<Rightarrow> string \<Rightarrow> int \<Rightarrow> error + string" where
  "index_extract idx w p v =
     (case findCommit (commits idx) p v of
        None \<Rightarrow> Inl (CannotFindVersion v p)
      | Some cmt \<Rightarrow>
          (case fs w (filePath idx cmt) of
             None \<Rightarrow> Inl (IOError (filePath idx cmt))
           | Some data \<Rightarrow>
               if ChecksumIEEE data \<noteq> dataCrc cmt
               then Inl (CorruptedFile (dataCrc cmt) (ChecksumIEEE data))
               else Inr data))"

section \<open>Committing\<close>

text \<open>
  \<open>sha1.New().Sum(b)\<close> appends the digest of what the hash was given, which is nothing,
  to \<open>b\<close>: the bytes of the path followed by the SHA-1 digest of the empty input.
\<close>

definition sha1Empty :: string where
  "sha1Empty =
     [CHR 0xDA, CHR 0x39, CHR 0xA3, CHR 0xEE, CHR 0x5E, CHR 0x6B, CHR 0x4B, CHR 0x0D,
      CHR 0x32, CHR 0x55, CHR 0xBF, CHR 0xEF, CHR 0x95, CHR 0x60, CHR 0x18, CHR 0x90,
      CHR 0xAF, CHR 0xD8, CHR 0x07, CHR 0x09]"

definition sha1NewSum :: "string \<Rightarrow> string" where
  "sha1NewSum b = b @ sha1Empty"

text \<open>
  The commit that \<open>idx.commit\<close> builds for the bytes \<open>data\<close> read from the file, with the
  time \<open>time.Now()\<close> returns as \<open>now\<close>.
\<close>

definition newCommit :: "'t golib \<Rightarrow> 't \<Rightarrow> 't index \<Rightarrow> string \<Rightarrow> int \<Rightarrow> string \<Rightarrow> string \<Rightarrow> 't commit" where
  "newCommit lib now idx p b msg data =
     \<lparr>path = p, cwhen = now, version = wrapInt (currVersion idx p + 1),
      basedOn = b,
      pathSig = fmtX (sha1NewSum p), dataCrc = ChecksumIEEE data,
      changes = quote lib msg\<rparr>"

text \<open>
  \<open>func (idx *index) commit(path string, basedOn int, changes string) error\<close>, in the
  two steps its comments name. The result is the error (\<open>None\<close> for \<open>nil\<close>) and the files
  as the call leaves them; \<open>idx.commits\<close> is not changed.
\<close>

text \<open>"first write the file contents": \<open>os.WriteFile(fpath, data, 0600)\<close>.\<close>

definition writeContents :: "osenv \<Rightarrow> world \<Rightarrow> string \<Rightarrow> string \<Rightarrow> error option \<times> world" where
  "writeContents env w fpath data =
     (case writeFileOutcome env of
        Fail r \<Rightarrow>
          (Some (FailedToCommitContents fpath),
           w\<lparr>fs := (case r of None \<Rightarrow> fs w | Some d \<Rightarrow> (fs w)(fpath \<mapsto> d)),
             trace := trace w @ [WriteFile fpath data False]\<rparr>)
      | Ok \<Rightarrow>
          (None,
           w\<lparr>fs := (fs w)(fpath \<mapsto> data), trace := trace w @ [WriteFile fpath data True]\<rparr>))"

text \<open>
  "then write the index entry": \<open>os.OpenFile\<close> for appending, without \<open>O_CREATE\<close>, so it
  fails on a file that is missing, and \<open>fmt.Fprintln\<close> of the serialized commit.
\<close>

definition writeIndexEntry :: "osenv \<Rightarrow> world \<Rightarrow> string \<Rightarrow> string \<Rightarrow> error option \<times> world" where
  "writeIndexEntry env w file line =
     (case (if openFileOk env then fs w file else None) of
        None \<Rightarrow> (Some (FailedToOpenIndex file), w\<lparr>trace := trace w @ [OpenFile file False]\<rparr>)
      | Some old \<Rightarrow>
          (case fprintlnOutcome env of
             Fail r \<Rightarrow>
               (Some (FailedToCommitIndex file),
                w\<lparr>fs := (case r of None \<Rightarrow> fs w | Some d \<Rightarrow> (fs w)(file \<mapsto> old @ d)),
                  trace := trace w @ [OpenFile file True, Fprintln file line False]\<rparr>)
           | Ok \<Rightarrow>
               (None,
                w\<lparr>fs := (fs w)(file \<mapsto> old @ line @ [nl]),
                  trace := trace w @ [OpenFile file True, Fprintln file line True]\<rparr>)))"

definition commit ::
  "'t golib \<Rightarrow> 't \<Rightarrow> osenv \<Rightarrow> 't index \<Rightarrow> world \<Rightarrow> string \<Rightarrow> int \<Rightarrow> string \<Rightarrow> error option \<times> world" where
  "commit lib now env idx w p b msg =
     (case fs w p of
        None \<Rightarrow> (Some (IOError p), w)
      | Some data \<Rightarrow>
          if b \<noteq> 0 \<and> b > currVersion idx p then (Some (InvalidBase b), w)
          else
            (let cmt = newCommit lib now idx p b msg data in
               (case writeContents env w (filePath idx cmt) data of
                  (Some e, w1) \<Rightarrow> (Some e, w1)
                | (None, w1) \<Rightarrow> writeIndexEntry env w1 (commitsFile idx) (serialize lib cmt))))"

section \<open>The tree of commits\<close>

text \<open>
  \<open>treeOfCommits\<close> links the commits \<open>filter\<close> returns through their \<open>descs\<close> fields and
  returns a dummy commit whose \<open>descs\<close> are the roots. A commit is a pointer in the
  source; here it is its position in the list \<open>filter\<close> returned. \<open>roots\<close> is
  \<open>dummy.descs\<close>, and \<open>descs f ! i\<close> is the \<open>descs\<close> field of the commit at position \<open>i\<close>.
\<close>

record forest =
  roots :: "nat list"
  descs :: "nat list list"

text \<open>The first loop: the map \<open>m\<close> from \<open>sig{path, version}\<close> to the commit.\<close>

definition sigMap :: "(nat \<times> 't commit) list \<Rightarrow> (string \<times> int \<rightharpoonup> nat)" where
  "sigMap ics = foldl (\<lambda>m (i, cmt). m((path cmt, version cmt) \<mapsto> i)) Map.empty ics"

text \<open>
  The second loop. \<open>m[sig{...}]\<close> of a key that is absent is \<open>nil\<close>, and \<open>c.descs\<close> of a
  \<open>nil\<close> pointer panics.
\<close>

fun attach :: "(string \<times> int \<rightharpoonup> nat) \<Rightarrow> (nat \<times> 't commit) list \<Rightarrow> forest \<Rightarrow> error + forest" where
  "attach m [] f = Inr f"
| "attach m ((i, cmt) # rest) f =
     (if basedOn cmt > 0 then
        (case m (path cmt, basedOn cmt) of
           None \<Rightarrow> Inl NilDereference
         | Some c \<Rightarrow> attach m rest (f\<lparr>descs := (descs f)[c := descs f ! c @ [i]]\<rparr>))
      else attach m rest (f\<lparr>roots := roots f @ [i]\<rparr>))"

text \<open>\<open>func (idx *index) treeOfCommits(path string) *commit\<close>\<close>

definition treeOfCommits :: "'t index \<Rightarrow> string \<Rightarrow> error + forest" where
  "treeOfCommits idx p =
     (let cs = filter_commits idx p; ics = enumerate 0 cs
      in attach (sigMap ics) ics \<lparr>roots = [], descs = replicate (length cs) []\<rparr>)"

section \<open>Runs of the program\<close>

text \<open>
  One run of sgvc loads the index and does one operation: \<open>main\<close> calls \<open>getIndex\<close> and
  then, for \<open>-add msg -base b p\<close>, \<open>idx.commit\<close>, and for \<open>-cat v p\<close>, \<open>idx.extract\<close>. The
  path is the absolute path \<open>main\<close> has resolved; a run without the flag's argument
  prints the usage.
\<close>

definition mainAdd ::
  "'t golib \<Rightarrow> startenv \<Rightarrow> 't \<Rightarrow> osenv \<Rightarrow> world \<Rightarrow> string \<Rightarrow> int \<Rightarrow> string \<Rightarrow> error option \<times> world" where
  "mainAdd lib senv now env w p b msg =
     (case getIndex lib senv w of
        (Inl e, w') \<Rightarrow> (Some e, w')
      | (Inr idx, w') \<Rightarrow> if msg = [] then (Some Usage, w') else commit lib now env idx w' p b msg)"

definition mainCat ::
  "'t golib \<Rightarrow> startenv \<Rightarrow> world \<Rightarrow> string \<Rightarrow> int \<Rightarrow> (error + string) \<times> world" where
  "mainCat lib senv w p v =
     (case getIndex lib senv w of
        (Inl e, w') \<Rightarrow> (Inl e, w')
      | (Inr idx, w') \<Rightarrow> if v > 0 then (index_extract idx w' p v, w') else (Inl Usage, w'))"

text \<open>
  For the runs evaluated below: a clock that shows one instant, a time library that
  knows this instant only, \<open>strconv.Quote\<close> as it is on printable ASCII characters, tabs,
  newlines and carriage returns, and an operating system whose calls succeed.
\<close>

definition stamp :: string where
  "stamp = ''2024-05-01T00:00:00Z''"

definition escape :: "char \<Rightarrow> string" where
  "escape c =
     (if c = CHR 0x22 then [CHR 0x5C, CHR 0x22]
      else if c = CHR 0x5C then [CHR 0x5C, CHR 0x5C]
      else if c = nl then [CHR 0x5C, CHR ''n'']
      else if c = cr then [CHR 0x5C, CHR ''r'']
      else if c = tab then [CHR 0x5C, CHR ''t'']
      else [c])"

definition quoteAscii :: "string \<Rightarrow> string" where
  "quoteAscii s = [CHR 0x22] @ concat (map escape s) @ [CHR 0x22]"

definition lib0 :: "unit golib" where
  "lib0 = \<lparr>timeParse = (\<lambda>s. if s = stamp then Some () else None),
           timeFormat = (\<lambda>_. stamp),
           quote = quoteAscii\<rparr>"

definition senv0 :: startenv where
  "senv0 = \<lparr>userCacheDir = Some ''/c'', mkdirAllOk = True, createOk = True\<rparr>"

definition env0 :: osenv where
  "env0 = \<lparr>writeFileOutcome = Ok, openFileOk = True, fprintlnOutcome = Ok\<rparr>"

text \<open>The index of a work directory in which nothing was committed yet.\<close>

definition idx0 :: "unit index" where
  "idx0 = \<lparr>workDir = ''/c/sgvc'', commitsFile = ''/c/sgvc/index'', commits = []\<rparr>"


text \<open>
  Files for the runs evaluated below: \<open>w1\<close> has the file \<open>/d\<close> and an empty index file,
  \<open>wnone\<close> has no file at all.
\<close>

definition w1 :: world where
  "w1 = \<lparr>fs = [''/d'' \<mapsto> ''hello'', ''/c/sgvc/index'' \<mapsto> []], trace = []\<rparr>"

definition wnone :: world where
  "wnone = \<lparr>fs = Map.empty, trace = []\<rparr>"

text \<open>
  The record of version 1 of \<open>/d\<close> with the bytes \<open>hello\<close>, an index that holds it, and
  files in which its contents are stored.
\<close>

definition cmt1 :: "unit commit" where
  "cmt1 = \<lparr>path = ''/d'', cwhen = (), version = 1, basedOn = 0,
           pathSig = ''2f64da39a3ee5e6b4b0d3255bfef95601890afd80709'',
           dataCrc = 907060870, changes = [CHR 0x22, CHR ''m'', CHR 0x22]\<rparr>"

definition idx1 :: "unit index" where
  "idx1 = \<lparr>workDir = ''/c/sgvc'', commitsFile = ''/c/sgvc/index'', commits = [cmt1]\<rparr>"

definition w2 :: world where
  "w2 = \<lparr>fs = [''/c/sgvc/2f64da39a3ee5e6b4b0d3255bfef95601890afd80709-0001'' \<mapsto> ''hello''],
         trace = []\<rparr>"

text \<open>
  The records of the spec's scenario for one path: versions 1 and 2 without a base and
  version 3 based on version 1, in an index that holds them in the order \<open>loadCommits\<close>
  gives them (descending version). \<open>orphan\<close> names a base that no record has.
\<close>

definition cmt2 :: "unit commit" where
  "cmt2 = cmt1\<lparr>version := 2, basedOn := 0\<rparr>"

definition cmt3 :: "unit commit" where
  "cmt3 = cmt1\<lparr>version := 3, basedOn := 1\<rparr>"

definition idx3 :: "unit index" where
  "idx3 = \<lparr>workDir = ''/c/sgvc'', commitsFile = ''/c/sgvc/index'', commits = [cmt3, cmt2, cmt1]\<rparr>"

definition orphan :: "unit commit" where
  "orphan = cmt1\<lparr>version := 1, basedOn := 2\<rparr>"

definition idxOrphan :: "unit index" where
  "idxOrphan = \<lparr>workDir = ''/c/sgvc'', commitsFile = ''/c/sgvc/index'', commits = [orphan]\<rparr>"

text \<open>
  The line of the index file for \<open>cmt1\<close>, and an index file whose second line is not a
  record.
\<close>

definition line1 :: string where
  "line1 = ''/d'' @ [tab] @ ''2024-05-01T00:00:00Z'' @ [tab] @ ''0001'' @ [tab] @ ''0000'' @ [tab] @
     ''2f64da39a3ee5e6b4b0d3255bfef95601890afd80709'' @ [tab] @ ''907060870'' @ [tab] @
     [CHR 0x22, CHR ''m'', CHR 0x22]"

definition wbad :: world where
  "wbad = \<lparr>fs = [''/c/sgvc/index'' \<mapsto> line1 @ [nl] @ ''junk'' @ [nl] @ line1 @ [nl]], trace = []\<rparr>"

text \<open>
  The records of an index file in the order of its lines, which is the order in which
  they were appended.
\<close>

definition logRecords :: "'t golib \<Rightarrow> string \<Rightarrow> 't commit list" where
  "logRecords lib data = map (\<lambda>l. projr (deserializeCommit lib (dropCR l))) (rawLines data)"

text \<open>An index file with the lines of versions 1 and 2 of \<open>/d\<close>, appended in this order.\<close>

definition line2 :: string where
  "line2 = ''/d'' @ [tab] @ ''2024-05-01T00:00:00Z'' @ [tab] @ ''0002'' @ [tab] @ ''0000'' @ [tab] @
     ''2f64da39a3ee5e6b4b0d3255bfef95601890afd80709'' @ [tab] @ ''907060870'' @ [tab] @
     [CHR 0x22, CHR ''m'', CHR 0x22]"

definition wlog :: world where
  "wlog = \<lparr>fs = [''/c/sgvc/index'' \<mapsto> line1 @ [nl] @ line2 @ [nl]], trace = []\<rparr>"

text \<open>
  A file whose name holds a tab, in a directory tree in which sgvc never ran; and a file
  in a directory whose name holds tabs and a newline.
\<close>

definition ptab :: string where
  "ptab = ''/a'' @ [tab] @ ''b''"

definition wtab :: world where
  "wtab = \<lparr>fs = [ptab \<mapsto> ''hello''], trace = []\<rparr>"

definition pinj :: string where
  "pinj = ''/p'' @ [tab] @ ''2024-05-01T00:00:00Z'' @ [tab] @ ''7'' @ [tab] @ ''0'' @ [tab] @
          [tab] @ ''0'' @ [tab] @ [nl] @ ''/q''"

definition winj :: world where
  "winj = \<lparr>fs = [pinj \<mapsto> ''hello''], trace = []\<rparr>"

text \<open>
  The two records that are read from the line committing \<open>pinj\<close> appends: one of a path
  \<open>/p\<close> with version 7, one of a path \<open>/q\<close> with version 1.
\<close>

definition cmtP :: "unit commit" where
  "cmtP = \<lparr>path = ''/p'', cwhen = (), version = 7, basedOn = 0, pathSig = [],
           dataCrc = 0, changes = []\<rparr>"

definition cmtQ :: "unit commit" where
  "cmtQ = \<lparr>path = ''/q'', cwhen = (), version = 1, basedOn = 0,
           pathSig = ''2f7009323032342d30352d30315430303a30303a30305a09370930090930090a2f71da39a3ee5e6b4b0d3255bfef95601890afd80709'',
           dataCrc = 907060870, changes = [CHR 0x22, CHR ''m'', CHR 0x22]\<rparr>"

text \<open>The two lines of that record in the index file.\<close>

definition lineP :: string where
  "lineP = ''/p'' @ [tab] @ ''2024-05-01T00:00:00Z'' @ [tab] @ ''7'' @ [tab] @ ''0'' @ [tab] @
          [tab] @ ''0'' @ [tab]"

definition lineQ :: string where
  "lineQ = ''/q'' @ [tab] @ ''2024-05-01T00:00:00Z'' @ [tab] @ ''0001'' @ [tab] @
     ''0000'' @ [tab] @ ''2f7009323032342d30352d30315430303a30303a30305a09370930090930090a2f71da39a3ee5e6b4b0d3255bfef95601890afd80709'' @ [tab] @
     ''907060870'' @ [tab] @ [CHR 0x22, CHR ''m'', CHR 0x22]"

text \<open>
  What the runs below need of the three library functions that are parameters: a time
  that was formatted is parsed again, and neither a formatted time nor a quoted string
  holds a tab, a newline or a carriage return. Go's functions are so: \<open>time.RFC3339\<close>
  prints digits, \<open>-\<close>, \<open>:\<close>, \<open>T\<close>, \<open>Z\<close> and \<open>+\<close>, and \<open>strconv.Quote\<close> escapes control
  characters.
\<close>

definition libOk :: "'t golib \<Rightarrow> bool" where
  "libOk lib \<longleftrightarrow>
     (\<forall>t. tab \<notin> set (timeFormat lib t) \<and> nl \<notin> set (timeFormat lib t) \<and>
          timeParse lib (timeFormat lib t) \<noteq> None) \<and>
     (\<forall>s. tab \<notin> set (quote lib s) \<and> nl \<notin> set (quote lib s) \<and> cr \<notin> set (quote lib s))"


section \<open>Evaluating the library functions\<close>

lemma replicate_numeral_eval: "replicate (numeral k) x = x # replicate (pred_numeral k) x"
  by (simp add: numeral_eq_Suc)

lemmas fmt_eval = fmtPadD_def fmtD_def padZero_def replicate_numeral_eval digits.simps digitChar_def

lemmas parse_eval = Atoi_def ParseUint32_def parseDigits_def digitVal_def

lemma crc_hello: "ChecksumIEEE ''hello'' = 907060870"
  by (simp add: ChecksumIEEE_def crcByte_def crcBit_def)

lemma lib0_fields:
  "timeFormat lib0 t = ''2024-05-01T00:00:00Z''"
  "timeParse lib0 s = (if s = ''2024-05-01T00:00:00Z'' then Some () else None)"
  "quote lib0 ''m'' = [CHR 0x22, CHR ''m'', CHR 0x22]"
  by (simp_all add: lib0_def stamp_def quoteAscii_def escape_def)

lemma idx0_fields:
  "workDir idx0 = ''/c/sgvc''" "commitsFile idx0 = ''/c/sgvc/index''" "commits idx0 = []"
  by (simp_all add: idx0_def)

lemma env0_fields:
  "writeFileOutcome env0 = Ok" "openFileOk env0" "fprintlnOutcome env0 = Ok"
  by (simp_all add: env0_def)

lemma currVersion_idx0: "currVersion idx0 p = 0"
  by (simp add: currVersion_def idx0_def)

section \<open>The version a commit gets\<close>

lemma currVersion_foldl_ge:
  "v \<le> foldl (\<lambda>v cmt. if path cmt = p \<and> version cmt > v then version cmt else v) v cs"
proof (induction cs arbitrary: v)
  case Nil
  show ?case by simp
next
  case (Cons c cs)
  have "v \<le> (if path c = p \<and> version c > v then version c else v)" by simp
  also have "\<dots> \<le> foldl (\<lambda>v cmt. if path cmt = p \<and> version cmt > v then version cmt else v)
      (if path c = p \<and> version c > v then version c else v) cs"
    by (rule Cons.IH)
  finally show ?case by simp
qed

lemma currVersion_nonneg: "0 \<le> currVersion idx p"
  unfolding currVersion_def by (rule currVersion_foldl_ge)

section \<open>The branches of commit\<close>

lemma commit_read_failed:
  "fs w p = None \<Longrightarrow> commit lib now env idx w p b msg = (Some (IOError p), w)"
  by (simp add: commit_def)

lemma commit_base_rejected:
  "fs w p = Some data \<Longrightarrow> b \<noteq> 0 \<Longrightarrow> b > currVersion idx p \<Longrightarrow>
   commit lib now env idx w p b msg = (Some (InvalidBase b), w)"
  by (simp add: commit_def)

lemma commit_write_failed:
  "fs w p = Some data \<Longrightarrow> b = 0 \<or> b \<le> currVersion idx p \<Longrightarrow>
   writeFileOutcome env = Fail r \<Longrightarrow>
   commit lib now env idx w p b msg =
     writeContents env w (filePath idx (newCommit lib now idx p b msg data)) data"
  by (auto simp add: commit_def Let_def writeContents_def)

lemma commit_written:
  "fs w p = Some data \<Longrightarrow> b = 0 \<or> b \<le> currVersion idx p \<Longrightarrow>
   writeFileOutcome env = Ok \<Longrightarrow>
   commit lib now env idx w p b msg =
     writeIndexEntry env
       (snd (writeContents env w (filePath idx (newCommit lib now idx p b msg data)) data))
       (commitsFile idx) (serialize lib (newCommit lib now idx p b msg data))"
  by (auto simp add: commit_def Let_def writeContents_def)


lemma writeContents_Ok:
  "writeFileOutcome env = Ok \<Longrightarrow>
   writeContents env w fpath data =
     (None, w\<lparr>fs := (fs w)(fpath \<mapsto> data), trace := trace w @ [WriteFile fpath data True]\<rparr>)"
  by (simp add: writeContents_def)


lemma writeIndexEntry_None:
  "fst (writeIndexEntry env w file line) = None \<longleftrightarrow>
     (if openFileOk env then fs w file else None) \<noteq> None \<and> fprintlnOutcome env = Ok"
  by (simp add: writeIndexEntry_def split: outcome.splits option.splits)

lemma writeIndexEntry_Ok:
  "openFileOk env \<Longrightarrow> fs w file = Some old \<Longrightarrow> fprintlnOutcome env = Ok \<Longrightarrow>
   writeIndexEntry env w file line =
     (None, w\<lparr>fs := (fs w)(file \<mapsto> old @ line @ [nl]),
              trace := trace w @ [OpenFile file True, Fprintln file line True]\<rparr>)"
  by (simp add: writeIndexEntry_def)


text \<open>When commit returns no error.\<close>

lemma commit_None_iff:
  "fst (commit lib now env idx w p b msg) = None \<longleftrightarrow>
     (\<exists>data. fs w p = Some data \<and> (b = 0 \<or> b \<le> currVersion idx p) \<and>
        writeFileOutcome env = Ok \<and> openFileOk env \<and> fprintlnOutcome env = Ok \<and>
        ((fs w)(filePath idx (newCommit lib now idx p b msg data) \<mapsto> data)) (commitsFile idx) \<noteq> None)"
proof (cases "fs w p")
  case None
  then show ?thesis by (simp add: commit_read_failed)
next
  case (Some data)
  show ?thesis
  proof (cases "b \<noteq> 0 \<and> b > currVersion idx p")
    case True
    with Some show ?thesis by (auto simp add: commit_base_rejected)
  next
    case False
    then have ok: "b = 0 \<or> b \<le> currVersion idx p" by auto
    show ?thesis
    proof (cases "writeFileOutcome env")
      case (Fail r)
      with Some show ?thesis
        by (simp add: commit_write_failed [OF Some ok Fail] writeContents_def)
    next
      case Ok
      from Some ok Ok show ?thesis
        by (auto simp add: commit_written [OF Some ok Ok] writeIndexEntry_None writeContents_Ok)
    qed
  qed
qed



section \<open>Committing: base validation, order of writes, negative bases\<close>

lemma newCommit_d:
  "newCommit lib0 () idx0 ''/d'' b ''m'' ''hello'' =
     \<lparr>path = ''/d'', cwhen = (), version = 1, basedOn = b,
      pathSig = ''2f64da39a3ee5e6b4b0d3255bfef95601890afd80709'',
      dataCrc = 907060870, changes = [CHR 0x22, CHR ''m'', CHR 0x22]\<rparr>"
  by (simp add: newCommit_def wrapInt_def currVersion_idx0 crc_hello fmtX_def hexDigit_def sha1NewSum_def
      sha1Empty_def lib0_fields)

lemma filePath_d:
  "filePath idx0 (newCommit lib0 () idx0 ''/d'' b ''m'' ''hello'') =
     ''/c/sgvc/2f64da39a3ee5e6b4b0d3255bfef95601890afd80709-0001''"
  by (simp add: newCommit_d filePath_def Join_def idx0_fields fmt_eval)

lemma w1_fields:
  "fs w1 ''/d'' = Some ''hello''" "fs w1 ''/c/sgvc/index'' = Some []" "trace w1 = []"
  by (simp_all add: w1_def)

text \<open>
  C3, as amended. A commit whose base is not 0 and above the current version of the path
  fails and leaves the files and the trace as they were: with an invalid-base error when
  the file at the path can be read, and with the read error when it cannot.
\<close>

theorem commit_invalid_base:
  assumes "b \<noteq> 0" and "b > currVersion idx p"
  shows "commit lib now env idx w p b msg =
           (Some (if fs w p = None then IOError p else InvalidBase b), w)"
proof (cases "fs w p")
  case None
  then show ?thesis by (simp add: commit_read_failed)
next
  case (Some data)
  with assms show ?thesis by (simp add: commit_base_rejected)
qed

theorem commit_invalid_base_witness:
  "(5::int) \<noteq> 0 \<and> 5 > currVersion idx0 ''/d'' \<and>
   commit lib0 () env0 idx0 w1 ''/d'' 5 ''m'' = (Some (InvalidBase 5), w1)"
  using commit_invalid_base [of 5 idx0 "''/d''" lib0 "()" env0 w1 "''m''"]
  by (simp add: currVersion_idx0 w1_fields)

theorem commit_invalid_base_counterexample:
  "(5::int) \<noteq> 0 \<and> 5 > currVersion idx0 ''/d'' \<and>
   fst (commit lib0 () env0 idx0 wnone ''/d'' 5 ''m'') = Some (IOError ''/d'') \<and>
   fst (commit lib0 () env0 idx0 wnone ''/d'' 5 ''m'') \<noteq> Some (InvalidBase 5)"
  by (simp add: currVersion_idx0 commit_read_failed wnone_def)







lemma commit_succeeds:
  assumes "fs w p = Some data" and "b = 0 \<or> b \<le> currVersion idx p"
    and "writeFileOutcome env = Ok" and "openFileOk env" and "fprintlnOutcome env = Ok"
    and "fs w (commitsFile idx) = Some old"
    and "commitsFile idx \<noteq> filePath idx (newCommit lib now idx p b msg data)"
  shows "commit lib now env idx w p b msg =
     (None,
      w\<lparr>fs := (fs w)(filePath idx (newCommit lib now idx p b msg data) \<mapsto> data,
                 commitsFile idx \<mapsto> old @ serialize lib (newCommit lib now idx p b msg data) @ [nl]),
        trace := trace w @
          [WriteFile (filePath idx (newCommit lib now idx p b msg data)) data True,
           OpenFile (commitsFile idx) True,
           Fprintln (commitsFile idx) (serialize lib (newCommit lib now idx p b msg data)) True]\<rparr>)"
  using assms
  by (simp add: commit_written [OF assms(1) assms(2) assms(3)] writeContents_Ok writeIndexEntry_Ok)







section \<open>Extracting a version\<close>

lemma findCommit_None_iff:
  "findCommit cs p v = None \<longleftrightarrow> (\<forall>c \<in> set cs. \<not> (path c = p \<and> version c = v))"
  by (induction cs) auto

lemma findCommit_first:
  "\<forall>d \<in> set pre. \<not> (path d = p \<and> version d = v) \<Longrightarrow> path c = p \<Longrightarrow> version c = v \<Longrightarrow>
   findCommit (pre @ c # post) p v = Some c"
  by (induction pre) auto

lemma filePath_cmt1:
  "filePath idx1 cmt1 = ''/c/sgvc/2f64da39a3ee5e6b4b0d3255bfef95601890afd80709-0001''"
  by (simp add: filePath_def Join_def idx1_def cmt1_def fmt_eval)

text \<open>
  C5, as amended. \<open>extract\<close> fails with the not-found error when no record has the path
  and the version. Otherwise it takes the first such record: when the file of its
  contents can be read, it fails with the corruption error exactly when the CRC-32 of the
  bytes read differs from the record's checksum, and returns the bytes when they agree;
  when that file cannot be read, it fails with the read error.
\<close>

theorem extract_outcomes:
  "((\<forall>c \<in> set (commits idx). \<not> (path c = p \<and> version c = v)) \<longrightarrow>
      index_extract idx w p v = Inl (CannotFindVersion v p)) \<and>
   (\<forall>pre c post.
      commits idx = pre @ c # post \<and> (\<forall>d \<in> set pre. \<not> (path d = p \<and> version d = v)) \<and>
      path c = p \<and> version c = v \<longrightarrow>
        index_extract idx w p v =
          (case fs w (filePath idx c) of
             None \<Rightarrow> Inl (IOError (filePath idx c))
           | Some data \<Rightarrow>
               if ChecksumIEEE data \<noteq> dataCrc c
               then Inl (CorruptedFile (dataCrc c) (ChecksumIEEE data))
               else Inr data))"
proof (intro conjI impI allI)
  assume "\<forall>c \<in> set (commits idx). \<not> (path c = p \<and> version c = v)"
  then have "findCommit (commits idx) p v = None" by (simp add: findCommit_None_iff)
  then show "index_extract idx w p v = Inl (CannotFindVersion v p)"
    by (simp add: index_extract_def)
next
  fix pre c post
  assume a: "commits idx = pre @ c # post \<and> (\<forall>d \<in> set pre. \<not> (path d = p \<and> version d = v)) \<and>
      path c = p \<and> version c = v"
  then have "findCommit (commits idx) p v = Some c" by (simp add: findCommit_first)
  then show "index_extract idx w p v =
          (case fs w (filePath idx c) of
             None \<Rightarrow> Inl (IOError (filePath idx c))
           | Some data \<Rightarrow>
               if ChecksumIEEE data \<noteq> dataCrc c
               then Inl (CorruptedFile (dataCrc c) (ChecksumIEEE data))
               else Inr data)"
    by (simp add: index_extract_def)
qed

theorem extract_outcomes_witness:
  "commits idx1 = [] @ cmt1 # [] \<and> path cmt1 = ''/d'' \<and> version cmt1 = 1 \<and>
   ChecksumIEEE ''hello'' = dataCrc cmt1 \<and>
   index_extract idx1 w2 ''/d'' 1 = Inr ''hello'' \<and>
   index_extract idx1 w2 ''/d'' 2 = Inl (CannotFindVersion 2 ''/d'')"
proof -
  note t = extract_outcomes [of idx1 "''/d''" 1 w2]
  note t2 = extract_outcomes [of idx1 "''/d''" 2 w2]
  have c: "commits idx1 = [] @ cmt1 # []" "path cmt1 = ''/d''" "version cmt1 = 1"
    "ChecksumIEEE ''hello'' = dataCrc cmt1"
    by (simp_all add: idx1_def cmt1_def crc_hello)
  have "commits idx1 = [] @ cmt1 # [] \<and> (\<forall>d \<in> set []. \<not> (path d = ''/d'' \<and> version d = 1)) \<and>
      path cmt1 = ''/d'' \<and> version cmt1 = 1"
    using c by simp
  with t have "index_extract idx1 w2 ''/d'' 1 =
          (case fs w2 (filePath idx1 cmt1) of
             None \<Rightarrow> Inl (IOError (filePath idx1 cmt1))
           | Some data \<Rightarrow>
               if ChecksumIEEE data \<noteq> dataCrc cmt1
               then Inl (CorruptedFile (dataCrc cmt1) (ChecksumIEEE data))
               else Inr data)"
    by blast
  then have r1: "index_extract idx1 w2 ''/d'' 1 = Inr ''hello''"
    using c(4) by (simp add: filePath_cmt1 w2_def)
  have "\<forall>c \<in> set (commits idx1). \<not> (path c = ''/d'' \<and> version c = 2)"
    by (simp add: idx1_def cmt1_def)
  with t2 have r2: "index_extract idx1 w2 ''/d'' 2 = Inl (CannotFindVersion 2 ''/d'')"
    by blast
  from c r1 r2 show ?thesis by blast
qed

theorem extract_unreadable_counterexample:
  "findCommit (commits idx1) ''/d'' 1 = Some cmt1 \<and>
   index_extract idx1 wnone ''/d'' 1 =
     Inl (IOError ''/c/sgvc/2f64da39a3ee5e6b4b0d3255bfef95601890afd80709-0001'')"
proof -
  have f: "findCommit (commits idx1) ''/d'' 1 = Some cmt1"
    by (simp add: idx1_def cmt1_def)
  then show ?thesis
    by (simp add: index_extract_def filePath_cmt1 wnone_def)
qed



section \<open>The tree of commits\<close>

lemma sigMap_snoc:
  "sigMap (ics @ [(i, c)]) = (sigMap ics)((path c, version c) \<mapsto> i)"
  by (simp add: sigMap_def)

lemma enumerate_snoc: "enumerate n (cs @ [c]) = enumerate n cs @ [(n + length cs, c)]"
  by (simp add: enumerate_append_eq)

text \<open>The map holds, for a key, the last commit of the list that has it.\<close>

lemma sigMap_enumerate:
  "sigMap (enumerate 0 cs) k = Some i \<longleftrightarrow>
     i < length cs \<and> (path (cs ! i), version (cs ! i)) = k \<and>
     (\<forall>j. i < j \<and> j < length cs \<longrightarrow> (path (cs ! j), version (cs ! j)) \<noteq> k)"
proof (induction cs arbitrary: i rule: rev_induct)
  case Nil
  show ?case by (simp add: sigMap_def)
next
  case (snoc c cs)
  show ?case
  proof (cases "(path c, version c) = k")
    case True
    have "sigMap (enumerate 0 (cs @ [c])) k = Some (length cs)"
      using True by (simp add: enumerate_snoc sigMap_snoc)
    moreover have "(i < length (cs @ [c]) \<and> (path ((cs @ [c]) ! i), version ((cs @ [c]) ! i)) = k \<and>
       (\<forall>j. i < j \<and> j < length (cs @ [c]) \<longrightarrow> (path ((cs @ [c]) ! j), version ((cs @ [c]) ! j)) \<noteq> k))
       \<longleftrightarrow> i = length cs"
    proof
      assume a: "i < length (cs @ [c]) \<and> (path ((cs @ [c]) ! i), version ((cs @ [c]) ! i)) = k \<and>
       (\<forall>j. i < j \<and> j < length (cs @ [c]) \<longrightarrow> (path ((cs @ [c]) ! j), version ((cs @ [c]) ! j)) \<noteq> k)"
      show "i = length cs"
      proof (rule ccontr)
        assume "i \<noteq> length cs"
        with a have "i < length cs" by simp
        moreover from a have "\<forall>j. i < j \<and> j < length (cs @ [c]) \<longrightarrow>
            (path ((cs @ [c]) ! j), version ((cs @ [c]) ! j)) \<noteq> k" by blast
        ultimately have "(path ((cs @ [c]) ! length cs), version ((cs @ [c]) ! length cs)) \<noteq> k"
          by (metis length_append_singleton lessI)
        with True show False by simp
      qed
    next
      assume "i = length cs"
      with True show "i < length (cs @ [c]) \<and> (path ((cs @ [c]) ! i), version ((cs @ [c]) ! i)) = k \<and>
       (\<forall>j. i < j \<and> j < length (cs @ [c]) \<longrightarrow> (path ((cs @ [c]) ! j), version ((cs @ [c]) ! j)) \<noteq> k)"
        by auto
    qed
    ultimately show ?thesis by auto
  next
    case False
    have "sigMap (enumerate 0 (cs @ [c])) k = sigMap (enumerate 0 cs) k"
      using False by (simp add: enumerate_snoc sigMap_snoc)
    moreover have "(i < length (cs @ [c]) \<and> (path ((cs @ [c]) ! i), version ((cs @ [c]) ! i)) = k \<and>
       (\<forall>j. i < j \<and> j < length (cs @ [c]) \<longrightarrow> (path ((cs @ [c]) ! j), version ((cs @ [c]) ! j)) \<noteq> k))
       \<longleftrightarrow> (i < length cs \<and> (path (cs ! i), version (cs ! i)) = k \<and>
     (\<forall>j. i < j \<and> j < length cs \<longrightarrow> (path (cs ! j), version (cs ! j)) \<noteq> k))"
      using False by (auto simp add: nth_append less_Suc_eq)
    ultimately show ?thesis using snoc.IH by simp
  qed
qed

lemma sigMap_enumerate_None:
  "sigMap (enumerate 0 cs) k = None \<longleftrightarrow> (\<forall>c \<in> set cs. (path c, version c) \<noteq> k)"
proof (induction cs rule: rev_induct)
  case Nil
  show ?case by (simp add: sigMap_def)
next
  case (snoc c cs)
  then show ?case by (auto simp add: enumerate_snoc sigMap_snoc)
qed


text \<open>The second loop panics exactly when some commit's parent is not in the map.\<close>

lemma attach_Inl_iff:
  "attach m rest f = Inl e \<longleftrightarrow>
     e = NilDereference \<and> (\<exists>(i, c) \<in> set rest. 0 < basedOn c \<and> m (path c, basedOn c) = None)"
proof (induction rest arbitrary: f)
  case Nil
  show ?case by simp
next
  case (Cons ic rest)
  obtain i c where ic: "ic = (i, c)" by (cases ic)
  show ?case
  proof (cases "0 < basedOn c")
    case False
    then show ?thesis using Cons.IH ic by simp
  next
    case True
    show ?thesis
    proof (cases "m (path c, basedOn c)")
      case None
      with True ic show ?thesis by auto
    next
      case (Some k)
      with True ic show ?thesis using Cons.IH by simp
    qed
  qed
qed

text \<open>What the second loop builds when it does not panic.\<close>

lemma attach_Inr:
  assumes "\<forall>(i, c) \<in> set rest. 0 < basedOn c \<longrightarrow> (\<exists>k < length (descs f). m (path c, basedOn c) = Some k)"
  shows "\<exists>f'. attach m rest f = Inr f' \<and>
     roots f' = roots f @ map fst (filter (\<lambda>(i, c). \<not> 0 < basedOn c) rest) \<and>
     length (descs f') = length (descs f) \<and>
     (\<forall>k < length (descs f). descs f' ! k =
        descs f ! k @ map fst (filter (\<lambda>(i, c). 0 < basedOn c \<and> m (path c, basedOn c) = Some k) rest))"
  using assms
proof (induction rest arbitrary: f)
  case Nil
  show ?case by simp
next
  case (Cons ic rest)
  obtain i c where ic: "ic = (i, c)" by (cases ic)
  show ?case
  proof (cases "0 < basedOn c")
    case False
    let ?f1 = "f\<lparr>roots := roots f @ [i]\<rparr>"
    have "\<forall>(i, c) \<in> set rest. 0 < basedOn c \<longrightarrow> (\<exists>k < length (descs ?f1). m (path c, basedOn c) = Some k)"
      using Cons.prems by auto
    from Cons.IH [OF this] obtain f' where f': "attach m rest ?f1 = Inr f'"
      "roots f' = roots ?f1 @ map fst (filter (\<lambda>(i, c). \<not> 0 < basedOn c) rest)"
      "length (descs f') = length (descs ?f1)"
      "\<forall>k < length (descs ?f1). descs f' ! k =
        descs ?f1 ! k @ map fst (filter (\<lambda>(i, c). 0 < basedOn c \<and> m (path c, basedOn c) = Some k) rest)"
      by blast
    then show ?thesis using False ic by simp
  next
    case True
    with Cons.prems ic obtain p where p: "p < length (descs f)" "m (path c, basedOn c) = Some p"
      by auto
    let ?f1 = "f\<lparr>descs := (descs f)[p := descs f ! p @ [i]]\<rparr>"
    have "\<forall>(i, c) \<in> set rest. 0 < basedOn c \<longrightarrow> (\<exists>k < length (descs ?f1). m (path c, basedOn c) = Some k)"
      using Cons.prems by auto
    from Cons.IH [OF this] obtain f' where f': "attach m rest ?f1 = Inr f'"
      "roots f' = roots ?f1 @ map fst (filter (\<lambda>(i, c). \<not> 0 < basedOn c) rest)"
      "length (descs f') = length (descs ?f1)"
      "\<forall>k < length (descs ?f1). descs f' ! k =
        descs ?f1 ! k @ map fst (filter (\<lambda>(i, c). 0 < basedOn c \<and> m (path c, basedOn c) = Some k) rest)"
      by blast
    have "attach m (ic # rest) f = Inr f'" using True p ic f'(1) by simp
    moreover have "roots f' = roots f @ map fst (filter (\<lambda>(i, c). \<not> 0 < basedOn c) (ic # rest))"
      using f'(2) True ic by simp
    moreover have "length (descs f') = length (descs f)" using f'(3) by simp
    moreover have "\<forall>k < length (descs f). descs f' ! k =
        descs f ! k @ map fst (filter (\<lambda>(i, c). 0 < basedOn c \<and> m (path c, basedOn c) = Some k) (ic # rest))"
    proof (intro allI impI)
      fix k assume k: "k < length (descs f)"
      with f'(4) have "descs f' ! k =
        descs ?f1 ! k @ map fst (filter (\<lambda>(i, c). 0 < basedOn c \<and> m (path c, basedOn c) = Some k) rest)"
        by simp
      then show "descs f' ! k =
        descs f ! k @ map fst (filter (\<lambda>(i, c). 0 < basedOn c \<and> m (path c, basedOn c) = Some k) (ic # rest))"
        using True p ic k by (cases "k = p") (simp_all add: nth_list_update)
    qed
    ultimately show ?thesis by blast
  qed
qed

lemma enumerate_eq_map: "enumerate 0 cs = map (\<lambda>i. (i, cs ! i)) [0..<length cs]"
  by (rule nth_equalityI) (simp_all add: nth_enumerate_eq)

lemma filter_enumerate:
  "map fst (filter (\<lambda>(i, c). P i c) (enumerate 0 cs)) = filter (\<lambda>i. P i (cs ! i)) [0..<length cs]"
  by (simp add: enumerate_eq_map filter_map comp_def)



lemma Bex_enumerate:
  "(\<exists>(i, c) \<in> set (enumerate 0 cs). P c) \<longleftrightarrow> (\<exists>c \<in> set cs. P c)"
proof -
  have "map snd (enumerate 0 cs) = cs"
    by (simp add: enumerate_eq_map comp_def map_nth)
  then have "set cs = snd ` set (enumerate 0 cs)"
    by (metis set_map)
  then show ?thesis by (auto simp add: case_prod_beta)
qed

lemma treeOfCommits_Inl_iff:
  "treeOfCommits idx p = Inl e \<longleftrightarrow>
     e = NilDereference \<and>
     (\<exists>c \<in> set (filter_commits idx p). 0 < basedOn c \<and>
        (\<forall>d \<in> set (filter_commits idx p). \<not> (path d = path c \<and> version d = basedOn c)))"
proof -
  let ?cs = "filter_commits idx p"
  have "(\<exists>(i, c) \<in> set (enumerate 0 ?cs). 0 < basedOn c \<and> sigMap (enumerate 0 ?cs) (path c, basedOn c) = None)
    \<longleftrightarrow> (\<exists>c \<in> set ?cs. 0 < basedOn c \<and> sigMap (enumerate 0 ?cs) (path c, basedOn c) = None)"
    by (rule Bex_enumerate)
  then show ?thesis
    by (simp add: treeOfCommits_def Let_def attach_Inl_iff sigMap_enumerate_None)
qed

lemma treeOfCommits_Inr:
  assumes "treeOfCommits idx p = Inr f"
  shows "roots f = filter (\<lambda>i. \<not> 0 < basedOn (filter_commits idx p ! i)) [0..<length (filter_commits idx p)]"
    and "length (descs f) = length (filter_commits idx p)"
    and "\<forall>k < length (filter_commits idx p). descs f ! k =
           filter (\<lambda>i. 0 < basedOn (filter_commits idx p ! i) \<and>
                 sigMap (enumerate 0 (filter_commits idx p))
                   (path (filter_commits idx p ! i), basedOn (filter_commits idx p ! i)) = Some k)
             [0..<length (filter_commits idx p)]"
proof -
  let ?cs = "filter_commits idx p"
  let ?m = "sigMap (enumerate 0 ?cs)"
  let ?f0 = "\<lparr>roots = [], descs = replicate (length ?cs) []\<rparr>"
  have run: "attach ?m (enumerate 0 ?cs) ?f0 = Inr f"
    using assms by (simp add: treeOfCommits_def Let_def)
  have pre: "\<forall>(i, c) \<in> set (enumerate 0 ?cs). 0 < basedOn c \<longrightarrow>
      (\<exists>k < length (descs ?f0). ?m (path c, basedOn c) = Some k)"
  proof (clarify)
    fix i c assume ic: "(i, c) \<in> set (enumerate 0 ?cs)" and b: "0 < basedOn c"
    have "?m (path c, basedOn c) \<noteq> None"
    proof
      assume "?m (path c, basedOn c) = None"
      with ic b have "attach ?m (enumerate 0 ?cs) ?f0 = Inl NilDereference"
        unfolding attach_Inl_iff by blast
      with run show False by simp
    qed
    then obtain k where k: "?m (path c, basedOn c) = Some k" by blast
    then have "k < length ?cs" by (simp add: sigMap_enumerate)
    with k show "\<exists>k < length (descs ?f0). ?m (path c, basedOn c) = Some k" by simp
  qed
  from attach_Inr [OF pre] run have
    r: "roots f = roots ?f0 @ map fst (filter (\<lambda>(i, c). \<not> 0 < basedOn c) (enumerate 0 ?cs))"
    and l: "length (descs f) = length (descs ?f0)"
    and d: "\<forall>k < length (descs ?f0). descs f ! k =
        descs ?f0 ! k @ map fst (filter (\<lambda>(i, c). 0 < basedOn c \<and> ?m (path c, basedOn c) = Some k) (enumerate 0 ?cs))"
    by auto
  from r show "roots f = filter (\<lambda>i. \<not> 0 < basedOn (?cs ! i)) [0..<length ?cs]"
    by (simp add: filter_enumerate)
  from l show "length (descs f) = length ?cs" by simp
  from d show "\<forall>k < length ?cs. descs f ! k =
           filter (\<lambda>i. 0 < basedOn (?cs ! i) \<and> ?m (path (?cs ! i), basedOn (?cs ! i)) = Some k)
             [0..<length ?cs]"
    by (simp add: filter_enumerate)
qed



lemmas cmt_defs = cmt1_def cmt2_def cmt3_def orphan_def

lemma filter_idx3: "filter_commits idx3 ''/d'' = [cmt3, cmt2, cmt1]"
  by (simp add: filter_commits_def idx3_def cmt_defs)

lemma filter_idxOrphan: "filter_commits idxOrphan ''/d'' = [orphan]"
  by (simp add: filter_commits_def idxOrphan_def cmt_defs)

lemma tree_idx3:
  "treeOfCommits idx3 ''/d'' = Inr \<lparr>roots = [1, 2], descs = [[], [], [0]]\<rparr>"
  by (simp add: treeOfCommits_def filter_idx3 Let_def sigMap_def cmt_defs)

text \<open>
  C10. \<open>treeOfCommits\<close> returns a forest exactly when every commit \<open>filter\<close> returned with
  a base above 0 has, among those commits, one of its path whose version is that base. In
  every other case it dereferences a nil pointer, as it does on an index whose only
  commit names version 2 as its base.
\<close>

theorem treeOfCommits_precondition:
  "((\<exists>f. treeOfCommits idx p = Inr f) \<longleftrightarrow>
      (\<forall>c \<in> set (filter_commits idx p). 0 < basedOn c \<longrightarrow>
         (\<exists>d \<in> set (filter_commits idx p). path d = path c \<and> version d = basedOn c))) \<and>
   ((\<exists>f. treeOfCommits idx p = Inr f) \<or> treeOfCommits idx p = Inl NilDereference) \<and>
   treeOfCommits idxOrphan ''/d'' = Inl NilDereference"
proof (intro conjI)
  have "(\<exists>f. treeOfCommits idx p = Inr f) \<longleftrightarrow> (\<forall>e. treeOfCommits idx p \<noteq> Inl e)"
    by (cases "treeOfCommits idx p") auto
  then show "(\<exists>f. treeOfCommits idx p = Inr f) \<longleftrightarrow>
      (\<forall>c \<in> set (filter_commits idx p). 0 < basedOn c \<longrightarrow>
         (\<exists>d \<in> set (filter_commits idx p). path d = path c \<and> version d = basedOn c))"
    unfolding treeOfCommits_Inl_iff by blast
  show "(\<exists>f. treeOfCommits idx p = Inr f) \<or> treeOfCommits idx p = Inl NilDereference"
    by (cases "treeOfCommits idx p") (auto simp add: treeOfCommits_Inl_iff)
  show "treeOfCommits idxOrphan ''/d'' = Inl NilDereference"
    by (simp add: treeOfCommits_Inl_iff filter_idxOrphan cmt_defs)
qed

theorem treeOfCommits_precondition_witness:
  "treeOfCommits idx3 ''/d'' \<noteq> Inl NilDereference \<and>
   0 < basedOn cmt3 \<and> path cmt1 = path cmt3 \<and> version cmt1 = basedOn cmt3 \<and>
   0 < basedOn orphan \<and> treeOfCommits idxOrphan ''/d'' = Inl NilDereference"
proof -
  note t = treeOfCommits_precondition [of idx3 "''/d''"]
  have pre: "\<forall>c \<in> set (filter_commits idx3 ''/d''). 0 < basedOn c \<longrightarrow>
         (\<exists>d \<in> set (filter_commits idx3 ''/d''). path d = path c \<and> version d = basedOn c)"
    by (simp add: filter_idx3 cmt_defs)
  with t have "\<exists>f. treeOfCommits idx3 ''/d'' = Inr f" by blast
  then have "treeOfCommits idx3 ''/d'' \<noteq> Inl NilDereference" by auto
  moreover from t have "treeOfCommits idxOrphan ''/d'' = Inl NilDereference" by blast
  moreover have "0 < basedOn cmt3 \<and> path cmt1 = path cmt3 \<and> version cmt1 = basedOn cmt3 \<and>
    0 < basedOn orphan" by (simp add: cmt_defs)
  ultimately show ?thesis by blast
qed

text \<open>
  C8. When \<open>treeOfCommits\<close> returns, the roots are the commits whose base is not above 0,
  so every commit with base 0 is a root, and the children of a commit are the commits
  with a base above 0 for which it is the commit the map holds for their path and base:
  the last commit of that path whose version is the base. For the versions 1, 2 and 3 of
  one path, with version 3 based on version 1, the roots are versions 2 and 1, version 3
  is the only child of version 1, and version 2 has no child.
\<close>

theorem treeOfCommits_forest:
  assumes "treeOfCommits idx p = Inr f" and "cs = filter_commits idx p"
  shows "roots f = filter (\<lambda>i. basedOn (cs ! i) \<le> 0) [0..<length cs] \<and>
    length (descs f) = length cs \<and>
    (\<forall>k < length cs. descs f ! k =
       filter (\<lambda>i. 0 < basedOn (cs ! i) \<and>
                path (cs ! k) = path (cs ! i) \<and> version (cs ! k) = basedOn (cs ! i) \<and>
                (\<forall>j. k < j \<and> j < length cs \<longrightarrow>
                   \<not> (path (cs ! j) = path (cs ! i) \<and> version (cs ! j) = basedOn (cs ! i))))
         [0..<length cs]) \<and>
    (\<forall>i < length cs. basedOn (cs ! i) = 0 \<longrightarrow> i \<in> set (roots f)) \<and>
    (\<forall>i < length cs. 0 < basedOn (cs ! i) \<longrightarrow>
       (\<exists>k < length cs. path (cs ! k) = path (cs ! i) \<and> version (cs ! k) = basedOn (cs ! i) \<and>
          i \<in> set (descs f ! k))) \<and>
    treeOfCommits idx3 ''/d'' = Inr \<lparr>roots = [1, 2], descs = [[], [], [0]]\<rparr>"
proof -
  note r = treeOfCommits_Inr [OF assms(1), folded assms(2)]
  have roots: "roots f = filter (\<lambda>i. basedOn (cs ! i) \<le> 0) [0..<length cs]"
    using r(1) by (simp add: not_less)
  have len: "length (descs f) = length cs" by (rule r(2))
  have descs: "\<forall>k < length cs. descs f ! k =
       filter (\<lambda>i. 0 < basedOn (cs ! i) \<and>
                path (cs ! k) = path (cs ! i) \<and> version (cs ! k) = basedOn (cs ! i) \<and>
                (\<forall>j. k < j \<and> j < length cs \<longrightarrow>
                   \<not> (path (cs ! j) = path (cs ! i) \<and> version (cs ! j) = basedOn (cs ! i))))
         [0..<length cs]"
  proof (intro allI impI)
    fix k assume k: "k < length cs"
    with r(3) have "descs f ! k =
        filter (\<lambda>i. 0 < basedOn (cs ! i) \<and>
                 sigMap (enumerate 0 cs) (path (cs ! i), basedOn (cs ! i)) = Some k) [0..<length cs]"
      by simp
    also have "\<dots> = filter (\<lambda>i. 0 < basedOn (cs ! i) \<and>
                path (cs ! k) = path (cs ! i) \<and> version (cs ! k) = basedOn (cs ! i) \<and>
                (\<forall>j. k < j \<and> j < length cs \<longrightarrow>
                   \<not> (path (cs ! j) = path (cs ! i) \<and> version (cs ! j) = basedOn (cs ! i))))
         [0..<length cs]"
      using k by (intro filter_cong refl) (auto simp add: sigMap_enumerate)
    finally show "descs f ! k =
       filter (\<lambda>i. 0 < basedOn (cs ! i) \<and>
                path (cs ! k) = path (cs ! i) \<and> version (cs ! k) = basedOn (cs ! i) \<and>
                (\<forall>j. k < j \<and> j < length cs \<longrightarrow>
                   \<not> (path (cs ! j) = path (cs ! i) \<and> version (cs ! j) = basedOn (cs ! i))))
         [0..<length cs]" .
  qed
  have isroot: "\<forall>i < length cs. basedOn (cs ! i) = 0 \<longrightarrow> i \<in> set (roots f)"
    by (simp add: roots)
  have child: "\<forall>i < length cs. 0 < basedOn (cs ! i) \<longrightarrow>
       (\<exists>k < length cs. path (cs ! k) = path (cs ! i) \<and> version (cs ! k) = basedOn (cs ! i) \<and>
          i \<in> set (descs f ! k))"
  proof (intro allI impI)
    fix i assume i: "i < length cs" and b: "0 < basedOn (cs ! i)"
    have "treeOfCommits idx p \<noteq> Inl NilDereference" using assms(1) by simp
    then have "\<exists>d \<in> set cs. path d = path (cs ! i) \<and> version d = basedOn (cs ! i)"
      unfolding treeOfCommits_Inl_iff using i b assms(2) by (metis nth_mem)
    then have "sigMap (enumerate 0 cs) (path (cs ! i), basedOn (cs ! i)) \<noteq> None"
      by (auto simp add: sigMap_enumerate_None)
    then obtain k where k: "sigMap (enumerate 0 cs) (path (cs ! i), basedOn (cs ! i)) = Some k"
      by blast
    then have kl: "k < length cs" and kp: "path (cs ! k) = path (cs ! i)"
      and kv: "version (cs ! k) = basedOn (cs ! i)"
      by (simp_all add: sigMap_enumerate)
    from r(3) kl have "descs f ! k =
        filter (\<lambda>i. 0 < basedOn (cs ! i) \<and>
                 sigMap (enumerate 0 cs) (path (cs ! i), basedOn (cs ! i)) = Some k) [0..<length cs]"
      by simp
    with i b k have "i \<in> set (descs f ! k)" by simp
    with kl kp kv show "\<exists>k < length cs. path (cs ! k) = path (cs ! i) \<and>
        version (cs ! k) = basedOn (cs ! i) \<and> i \<in> set (descs f ! k)" by blast
  qed
  from roots len descs isroot child tree_idx3 show ?thesis by blast
qed


theorem treeOfCommits_forest_witness:
  "treeOfCommits idx3 ''/d'' = Inr \<lparr>roots = [1, 2], descs = [[], [], [0]]\<rparr> \<and>
   [cmt3, cmt2, cmt1] = filter_commits idx3 ''/d'' \<and>
   map version [cmt3, cmt2, cmt1] = [3, 2, 1] \<and> map basedOn [cmt3, cmt2, cmt1] = [1, 0, 0] \<and>
   roots \<lparr>roots = [1, 2], descs = [[], [], [0]]\<rparr> = [1, 2] \<and>
   (\<exists>k < 3. version ([cmt3, cmt2, cmt1] ! k) = 1 \<and>
      0 \<in> set (descs \<lparr>roots = [1, 2], descs = [[], [], [0]]\<rparr> ! k))"
proof -
  let ?f = "\<lparr>roots = [1, 2], descs = [[], [], [0]]\<rparr>"
  let ?cs = "[cmt3, cmt2, cmt1]"
  have run: "treeOfCommits idx3 ''/d'' = Inr ?f" by (rule tree_idx3)
  have cs: "?cs = filter_commits idx3 ''/d''" by (simp add: filter_idx3)
  note t = treeOfCommits_forest [OF run cs]
  have vs: "map version ?cs = [3, 2, 1]" "map basedOn ?cs = [1, 0, 0]"
    by (simp_all add: cmt_defs)
  from t have "roots ?f = filter (\<lambda>i. basedOn (?cs ! i) \<le> 0) [0..<length ?cs]" by blast
  then have r: "roots ?f = [1, 2]" by simp
  from t have "\<forall>i < length ?cs. 0 < basedOn (?cs ! i) \<longrightarrow>
       (\<exists>k < length ?cs. path (?cs ! k) = path (?cs ! i) \<and> version (?cs ! k) = basedOn (?cs ! i) \<and>
          i \<in> set (descs ?f ! k))" by blast
  moreover have "0 < length ?cs \<and> 0 < basedOn (?cs ! 0)" by (simp add: cmt_defs)
  ultimately have "\<exists>k < length ?cs. path (?cs ! k) = path (?cs ! 0) \<and>
      version (?cs ! k) = basedOn (?cs ! 0) \<and> 0 \<in> set (descs ?f ! k)" by blast
  moreover have "length ?cs = 3" by simp
  moreover have "basedOn (?cs ! 0) = 1" by (simp add: cmt_defs)
  ultimately have c: "\<exists>k < 3. version (?cs ! k) = 1 \<and> 0 \<in> set (descs ?f ! k)"
    by metis
  from run cs vs r c show ?thesis by blast
qed



section \<open>Lines and fields\<close>

lemma split_not_Nil: "split sep s \<noteq> []"
  by (induction s) (auto split: list.splits)

lemma split_no_sep: "sep \<notin> set xs \<Longrightarrow> split sep xs = [xs]"
  by (induction xs) auto

lemma split_append_sep: "sep \<notin> set xs \<Longrightarrow> split sep (xs @ sep # ys) = xs # split sep ys"
  by (induction xs) auto

lemma rawLines_Nil: "rawLines [] = []"
  by (simp add: rawLines_def)

lemma rawLines_line: "nl \<notin> set l \<Longrightarrow> rawLines (l @ nl # rest) = l # rawLines rest"
proof -
  assume l: "nl \<notin> set l"
  have ne: "split nl rest \<noteq> []" by (rule split_not_Nil)
  from l show ?thesis
    using ne by (simp add: rawLines_def split_append_sep Let_def)
qed

lemma line1_no_nl: "nl \<notin> set line1"
  by (simp add: line1_def)

lemma serialize_cmt1: "serialize lib0 cmt1 = line1"
  by (simp add: serialize_def cmt1_def lib0_fields fmt_eval line1_def)

lemma deserialize_line1: "deserializeCommit lib0 line1 = Inr cmt1"
  by (simp add: deserializeCommit_def line1_def lib0_fields parse_eval cmt1_def)

lemma dropCR_line1: "dropCR line1 = line1"
  by (simp add: dropCR_def line1_def)

lemma length_line1: "length line1 = 92"
  by (simp add: line1_def)

section \<open>Reading the index file\<close>

lemma scanCommits_Inr_iff:
  "scanCommits lib n ls acc = Inr cs \<longleftrightarrow>
     (\<forall>l \<in> set ls. length l < MaxScanTokenSize \<and> (\<exists>c. deserializeCommit lib (dropCR l) = Inr c)) \<and>
     cs = acc @ map (\<lambda>l. projr (deserializeCommit lib (dropCR l))) ls"
proof (induction ls arbitrary: n acc)
  case Nil
  show ?case by auto
next
  case (Cons l ls)
  show ?case
  proof (cases "MaxScanTokenSize \<le> length l")
    case True
    then show ?thesis by auto
  next
    case False
    show ?thesis
    proof (cases "deserializeCommit lib (dropCR l)")
      case (Inl e)
      with False show ?thesis by auto
    next
      case (Inr c)
      with False show ?thesis using Cons.IH [of "n + 1" "acc @ [c]"] by auto
    qed
  qed
qed

lemma scanCommits_first_bad:
  assumes "\<forall>l' \<in> set pre. length l' < MaxScanTokenSize \<and> (\<exists>c. deserializeCommit lib (dropCR l') = Inr c)"
    and "length l < MaxScanTokenSize" and "deserializeCommit lib (dropCR l) = Inl e"
  shows "scanCommits lib n (pre @ l # post) acc = Inl (Fatal (n + length pre + 1) e)"
  using assms
proof (induction pre arbitrary: n acc)
  case Nil
  then show ?case by simp
next
  case (Cons a pre)
  from Cons.prems(1) obtain c where c: "deserializeCommit lib (dropCR a) = Inr c"
    and la: "length a < MaxScanTokenSize" by auto
  have "scanCommits lib (n + 1) (pre @ l # post) (acc @ [c]) = Inl (Fatal (n + 1 + length pre + 1) e)"
    using Cons.prems by (intro Cons.IH) auto
  with c la show ?case by simp
qed



lemma Atoi_range: "Atoi s = Some v \<Longrightarrow> - (2 ^ 63) \<le> v \<and> v < 2 ^ 63"
  by (auto simp add: Atoi_def Let_def split: list.splits option.splits if_splits)

lemma ParseUint32_range: "ParseUint32 s = Some n \<Longrightarrow> n < 2 ^ 32"
  by (auto simp add: ParseUint32_def split: option.splits if_splits)

lemma deserializeCommit_Inr_iff:
  "(\<exists>c. deserializeCommit lib s = Inr c) \<longleftrightarrow>
     length (split tab s) = 7 \<and> timeParse lib (split tab s ! 1) \<noteq> None \<and>
     Atoi (split tab s ! 2) \<noteq> None \<and> Atoi (split tab s ! 3) \<noteq> None \<and>
     ParseUint32 (split tab s ! 5) \<noteq> None"
  by (auto simp add: deserializeCommit_def Let_def split: option.splits)

lemma loadCommits_first_bad:
  assumes "fs w (commitsFile idx) = Some data" and "rawLines data = pre @ l # post"
    and "\<forall>l' \<in> set pre. length l' < MaxScanTokenSize \<and> (\<exists>c. deserializeCommit lib (dropCR l') = Inr c)"
    and "length l < MaxScanTokenSize" and "deserializeCommit lib (dropCR l) = Inl e"
  shows "loadCommits lib idx w = Inl (Fatal (length pre + 1) e)"
  using scanCommits_first_bad [OF assms(3) assms(4) assms(5), of 0 post "[]"] assms(1) assms(2)
  by (simp add: loadCommits_def)

lemma loadCommits_Inr_iff:
  "loadCommits lib idx w = Inr idx' \<longleftrightarrow>
     (\<exists>data. fs w (commitsFile idx) = Some data \<and>
        (\<forall>l \<in> set (rawLines data). length l < MaxScanTokenSize \<and>
           (\<exists>c. deserializeCommit lib (dropCR l) = Inr c)) \<and>
        idx' = idx\<lparr>commits := SortFunc (map (\<lambda>l. projr (deserializeCommit lib (dropCR l))) (rawLines data))\<rparr>)"
proof (cases "fs w (commitsFile idx)")
  case None
  then show ?thesis by (simp add: loadCommits_def)
next
  case (Some data)
  show ?thesis
  proof (cases "scanCommits lib 0 (rawLines data) []")
    case (Inl e)
    then have "\<not> (\<forall>l \<in> set (rawLines data). length l < MaxScanTokenSize \<and>
           (\<exists>c. deserializeCommit lib (dropCR l) = Inr c))"
      using scanCommits_Inr_iff [of lib 0 "rawLines data" "[]"] by auto
    with Some Inl show ?thesis by (simp add: loadCommits_def)
  next
    case (Inr cs)
    then have "(\<forall>l \<in> set (rawLines data). length l < MaxScanTokenSize \<and>
           (\<exists>c. deserializeCommit lib (dropCR l) = Inr c)) \<and>
        cs = map (\<lambda>l. projr (deserializeCommit lib (dropCR l))) (rawLines data)"
      using scanCommits_Inr_iff [of lib 0 "rawLines data" "[]" cs] by simp
    with Some Inr show ?thesis by (auto simp add: loadCommits_def)
  qed
qed

text \<open>
  C6. A line is parsed into a commit exactly when it has seven fields between tabs, its
  second field is a time the library parses, its third and fourth fields are integers
  for \<open>strconv.Atoi\<close> and its sixth field is an unsigned integer of 32 bits for
  \<open>strconv.ParseUint\<close>. The first line of the index file that is not parsed ends the
  process with \<open>log.Fatalf\<close>, whatever the lines after it are, and no index is returned
  from a file that holds such a line.
\<close>

theorem deserializeCommit_or_fatal:
  "((\<exists>c. deserializeCommit lib s = Inr c) \<longleftrightarrow>
      length (split tab s) = 7 \<and> timeParse lib (split tab s ! 1) \<noteq> None \<and>
      Atoi (split tab s ! 2) \<noteq> None \<and> Atoi (split tab s ! 3) \<noteq> None \<and>
      ParseUint32 (split tab s ! 5) \<noteq> None) \<and>
   (fs w (commitsFile idx) = Some data \<and> rawLines data = pre @ l # post \<and>
    (\<forall>l' \<in> set pre. length l' < MaxScanTokenSize \<and> (\<exists>c. deserializeCommit lib (dropCR l') = Inr c)) \<and>
    length l < MaxScanTokenSize \<and> (\<forall>c. deserializeCommit lib (dropCR l) \<noteq> Inr c) \<longrightarrow>
      (\<exists>e. deserializeCommit lib (dropCR l) = Inl e \<and>
           loadCommits lib idx w = Inl (Fatal (length pre + 1) e))) \<and>
   (fs w (commitsFile idx) = Some data \<and>
    (\<exists>l \<in> set (rawLines data). \<forall>c. deserializeCommit lib (dropCR l) \<noteq> Inr c) \<longrightarrow>
      (\<exists>e. loadCommits lib idx w = Inl e))"
proof (intro conjI impI)
  show "(\<exists>c. deserializeCommit lib s = Inr c) \<longleftrightarrow>
      length (split tab s) = 7 \<and> timeParse lib (split tab s ! 1) \<noteq> None \<and>
      Atoi (split tab s ! 2) \<noteq> None \<and> Atoi (split tab s ! 3) \<noteq> None \<and>
      ParseUint32 (split tab s ! 5) \<noteq> None"
    by (rule deserializeCommit_Inr_iff)
next
  assume a: "fs w (commitsFile idx) = Some data \<and> rawLines data = pre @ l # post \<and>
    (\<forall>l' \<in> set pre. length l' < MaxScanTokenSize \<and> (\<exists>c. deserializeCommit lib (dropCR l') = Inr c)) \<and>
    length l < MaxScanTokenSize \<and> (\<forall>c. deserializeCommit lib (dropCR l) \<noteq> Inr c)"
  then obtain e where e: "deserializeCommit lib (dropCR l) = Inl e"
    by (cases "deserializeCommit lib (dropCR l)") auto
  with a have "loadCommits lib idx w = Inl (Fatal (length pre + 1) e)"
    by (intro loadCommits_first_bad) auto
  with e show "\<exists>e. deserializeCommit lib (dropCR l) = Inl e \<and>
           loadCommits lib idx w = Inl (Fatal (length pre + 1) e)" by blast
next
  assume a: "fs w (commitsFile idx) = Some data \<and>
    (\<exists>l \<in> set (rawLines data). \<forall>c. deserializeCommit lib (dropCR l) \<noteq> Inr c)"
  have "\<forall>idx'. loadCommits lib idx w \<noteq> Inr idx'"
    using a unfolding loadCommits_Inr_iff by auto
  then show "\<exists>e. loadCommits lib idx w = Inl e"
    by (cases "loadCommits lib idx w") auto
qed

lemma rawLines_wbad:
  "rawLines (line1 @ [nl] @ ''junk'' @ [nl] @ line1 @ [nl]) = [line1] @ ''junk'' # [line1]"
proof -
  have junk: "rawLines (''junk'' @ nl # rest) = ''junk'' # rawLines rest" for rest
    by (rule rawLines_line) simp
  have "rawLines (line1 @ nl # (''junk'' @ nl # (line1 @ nl # []))) = line1 # ''junk'' # line1 # []"
    by (simp only: rawLines_line [OF line1_no_nl] junk rawLines_Nil)
  moreover have "line1 @ [nl] @ ''junk'' @ [nl] @ line1 @ [nl] =
      line1 @ nl # (''junk'' @ nl # (line1 @ nl # []))" by simp
  ultimately show ?thesis by simp
qed

theorem deserializeCommit_or_fatal_witness:
  "length (split tab line1) = 7 \<and> deserializeCommit lib0 line1 = Inr cmt1 \<and>
   length (split tab ''junk'') = 1 \<and>
   loadCommits lib0 idx0 wbad = Inl (Fatal 2 (Malformed ''malformed line''))"
proof -
  note t = deserializeCommit_or_fatal [of lib0 line1 wbad idx0
      "line1 @ [nl] @ ''junk'' @ [nl] @ line1 @ [nl]" "[line1]" "''junk''" "[line1]"]
  have sp: "split tab line1 = [''/d'', ''2024-05-01T00:00:00Z'', ''0001'', ''0000'',
      ''2f64da39a3ee5e6b4b0d3255bfef95601890afd80709'', ''907060870'', [CHR 0x22, CHR ''m'', CHR 0x22]]"
    by (simp add: line1_def)
  have "length (split tab line1) = 7 \<and> timeParse lib0 (split tab line1 ! 1) \<noteq> None \<and>
      Atoi (split tab line1 ! 2) \<noteq> None \<and> Atoi (split tab line1 ! 3) \<noteq> None \<and>
      ParseUint32 (split tab line1 ! 5) \<noteq> None"
    by (simp add: sp lib0_fields parse_eval)
  with t have "\<exists>c. deserializeCommit lib0 line1 = Inr c" by blast
  then have good: "deserializeCommit lib0 line1 = Inr cmt1" by (simp add: deserialize_line1)
  have bad: "deserializeCommit lib0 (dropCR ''junk'') = Inl (Malformed ''malformed line'')"
    by (simp add: deserializeCommit_def dropCR_def)
  have c1: "fs wbad (commitsFile idx0) = Some (line1 @ [nl] @ ''junk'' @ [nl] @ line1 @ [nl])"
    by (simp add: wbad_def idx0_fields)
  have c2: "rawLines (line1 @ [nl] @ ''junk'' @ [nl] @ line1 @ [nl]) = [line1] @ ''junk'' # [line1]"
    by (rule rawLines_wbad)
  have c3: "\<forall>l' \<in> set [line1]. length l' < MaxScanTokenSize \<and>
      (\<exists>c. deserializeCommit lib0 (dropCR l') = Inr c)"
    by (simp add: length_line1 dropCR_line1 good)
  have c4: "length ''junk'' < MaxScanTokenSize \<and> (\<forall>c. deserializeCommit lib0 (dropCR ''junk'') \<noteq> Inr c)"
    by (simp add: bad)
  from c1 c2 c3 c4 have "fs wbad (commitsFile idx0) = Some (line1 @ [nl] @ ''junk'' @ [nl] @ line1 @ [nl]) \<and>
    rawLines (line1 @ [nl] @ ''junk'' @ [nl] @ line1 @ [nl]) = [line1] @ ''junk'' # [line1] \<and>
    (\<forall>l' \<in> set [line1]. length l' < MaxScanTokenSize \<and> (\<exists>c. deserializeCommit lib0 (dropCR l') = Inr c)) \<and>
    length ''junk'' < MaxScanTokenSize \<and> (\<forall>c. deserializeCommit lib0 (dropCR ''junk'') \<noteq> Inr c)"
    by blast
  with t have "\<exists>e. deserializeCommit lib0 (dropCR ''junk'') = Inl e \<and>
           loadCommits lib0 idx0 wbad = Inl (Fatal (length [line1] + 1) e)" by blast
  with bad have "loadCommits lib0 idx0 wbad = Inl (Fatal 2 (Malformed ''malformed line''))"
    by simp
  with good sp show ?thesis by simp
qed



section \<open>The order of the loaded commits\<close>

lemma char_eq_if_not_less:
  "\<not> (of_char a :: nat) < of_char b \<Longrightarrow> \<not> (of_char b :: nat) < of_char a \<Longrightarrow> a = b"
  by (rule of_char_eqI [where 'a = nat]) simp

lemma Compare_same: "Compare a a = 0"
  by (induction a) auto

lemma Compare_eq_0: "Compare a b = 0 \<Longrightarrow> a = b"
proof (induction a b rule: Compare.induct)
  case 1
  show ?case by simp
next
  case (2 b bs)
  then show ?case by simp
next
  case (3 a as)
  then show ?case by simp
next
  case (4 a as b bs)
  from "4.prems" have n1: "\<not> (of_char a :: nat) < of_char b"
    by (simp split: if_splits)
  from "4.prems" n1 have n2: "\<not> (of_char b :: nat) < of_char a"
    by (simp split: if_splits)
  from "4.prems" n1 n2 have "Compare as bs = 0" by simp
  with "4.IH" n1 n2 have "as = bs" by simp
  moreover from n1 n2 have "a = b" by (rule char_eq_if_not_less)
  ultimately show ?case by simp
qed

lemma Compare_flip: "Compare b a = - Compare a b"
proof (induction a b rule: Compare.induct)
  case (4 a as b bs)
  show ?case
  proof (cases "(of_char a :: nat) < of_char b")
    case True
    then show ?thesis by simp
  next
    case False
    note nab = this
    show ?thesis
    proof (cases "(of_char b :: nat) < of_char a")
      case True
      with nab show ?thesis by simp
    next
      case False
      with nab "4.IH" show ?thesis by simp
    qed
  qed
qed simp_all

lemma Compare_less_Cons:
  "Compare (a # as) (b # bs) < 0 \<longleftrightarrow>
     (of_char a :: nat) < of_char b \<or> (a = b \<and> Compare as bs < 0)"
proof (cases "(of_char a :: nat) < of_char b")
  case True
  then show ?thesis by simp
next
  case False
  note nab = this
  show ?thesis
  proof (cases "(of_char b :: nat) < of_char a")
    case True
    with nab show ?thesis by auto
  next
    case False
    with nab have "a = b" by (rule char_eq_if_not_less)
    with nab show ?thesis by simp
  qed
qed

lemma Compare_less_trans:
  "Compare a b < 0 \<Longrightarrow> Compare b c < 0 \<Longrightarrow> Compare a c < 0"
proof (induction a arbitrary: b c)
  case Nil
  then show ?case by (cases b; cases c) simp_all
next
  case (Cons x xs)
  from Cons.prems(1) obtain y ys where b: "b = y # ys" by (cases b) simp_all
  from Cons.prems(2) b obtain z zs where c: "c = z # zs" by (cases c) simp_all
  from Cons.prems(1) b have 1: "(of_char x :: nat) < of_char y \<or> (x = y \<and> Compare xs ys < 0)"
    by (simp only: Compare_less_Cons)
  from Cons.prems(2) b c have 2: "(of_char y :: nat) < of_char z \<or> (y = z \<and> Compare ys zs < 0)"
    by (simp only: Compare_less_Cons)
  have "(of_char x :: nat) < of_char z \<or> (x = z \<and> Compare xs zs < 0)"
  proof (cases "(of_char x :: nat) < of_char y")
    case True
    with 2 show ?thesis by auto
  next
    case False
    with 1 have xy: "x = y" and l: "Compare xs ys < 0" by auto
    show ?thesis
    proof (cases "(of_char y :: nat) < of_char z")
      case True
      with xy show ?thesis by simp
    next
      case False
      with 2 have yz: "y = z" and l2: "Compare ys zs < 0" by auto
      from Cons.IH [OF l l2] xy yz show ?thesis by simp
    qed
  qed
  then show ?case unfolding c by (simp only: Compare_less_Cons)
qed



text \<open>
  The comparison of \<open>loadCommits\<close> as an order: path first, then the higher version. The
  subtraction of two versions that are not negative does not wrap around.
\<close>

lemma wrapInt_id: "- (2 ^ 63) \<le> x \<Longrightarrow> x < 2 ^ 63 \<Longrightarrow> wrapInt x = x"
  by (simp add: wrapInt_def)

lemma cmpCommits_le_iff:
  assumes "0 \<le> version a" and "version a < 2 ^ 63" and "0 \<le> version b" and "version b < 2 ^ 63"
  shows "cmpCommits a b \<le> 0 \<longleftrightarrow>
     Compare (path a) (path b) < 0 \<or> (path a = path b \<and> version b \<le> version a)"
proof -
  have w: "wrapInt (version b - version a) = version b - version a"
    using assms by (intro wrapInt_id) simp_all
  show ?thesis
  proof (cases "Compare (path a) (path b) = 0")
    case True
    then have "path a = path b" by (rule Compare_eq_0)
    with True w show ?thesis by (simp add: cmpCommits_def)
  next
    case False
    then have "path a \<noteq> path b" by (auto simp add: Compare_same)
    with False show ?thesis by (auto simp add: cmpCommits_def Let_def)
  qed
qed

lemma newer_first_total:
  "\<not> (Compare (path a) (path b) < 0 \<or> (path a = path b \<and> version b \<le> version a)) \<Longrightarrow>
   Compare (path b) (path a) < 0 \<or> (path b = path a \<and> version a \<le> version b)"
proof -
  assume n: "\<not> (Compare (path a) (path b) < 0 \<or> (path a = path b \<and> version b \<le> version a))"
  show ?thesis
  proof (cases "path a = path b")
    case True
    with n show ?thesis by simp
  next
    case False
    then have "Compare (path a) (path b) \<noteq> 0" by (auto dest: Compare_eq_0)
    with n have "Compare (path b) (path a) < 0"
      using Compare_flip [of "path b" "path a"] by simp
    then show ?thesis by simp
  qed
qed

lemma newer_first_trans:
  "Compare (path a) (path b) < 0 \<or> (path a = path b \<and> version b \<le> version a) \<Longrightarrow>
   Compare (path b) (path c) < 0 \<or> (path b = path c \<and> version c \<le> version b) \<Longrightarrow>
   Compare (path a) (path c) < 0 \<or> (path a = path c \<and> version c \<le> version a)"
  using Compare_less_trans [of "path a" "path b" "path c"] by auto

lemma set_insertCommit: "set (insertCommit c ds) = insert c (set ds)"
  by (induction ds) auto

lemma mset_insertCommit: "mset (insertCommit c ds) = add_mset c (mset ds)"
  by (induction ds) auto

lemma sorted_insertCommit:
  assumes "0 \<le> version c \<and> version c < 2 ^ 63"
    and "\<forall>d \<in> set ds. 0 \<le> version d \<and> version d < 2 ^ 63"
    and "sorted_wrt (\<lambda>a b. Compare (path a) (path b) < 0 \<or>
                          (path a = path b \<and> version b \<le> version a)) ds"
  shows "sorted_wrt (\<lambda>a b. Compare (path a) (path b) < 0 \<or>
                          (path a = path b \<and> version b \<le> version a)) (insertCommit c ds)"
  using assms(2) assms(3)
proof (induction ds)
  case Nil
  show ?case by simp
next
  case (Cons d ds)
  have fit: "0 \<le> version d" "version d < 2 ^ 63" using Cons.prems(1) by simp_all
  note le = cmpCommits_le_iff [of c d] 
  show ?case
  proof (cases "cmpCommits c d \<le> 0")
    case True
    then have cd: "Compare (path c) (path d) < 0 \<or> (path c = path d \<and> version d \<le> version c)"
      using le assms(1) fit by simp
    have "\<forall>x \<in> set ds. Compare (path c) (path x) < 0 \<or> (path c = path x \<and> version x \<le> version c)"
    proof
      fix x assume "x \<in> set ds"
      with Cons.prems(2) have "Compare (path d) (path x) < 0 \<or> (path d = path x \<and> version x \<le> version d)"
        by simp
      with cd show "Compare (path c) (path x) < 0 \<or> (path c = path x \<and> version x \<le> version c)"
        by (rule newer_first_trans)
    qed
    with True cd Cons.prems(2) show ?thesis by simp
  next
    case False
    then have "\<not> (Compare (path c) (path d) < 0 \<or> (path c = path d \<and> version d \<le> version c))"
      using le assms(1) fit by simp
    then have dc: "Compare (path d) (path c) < 0 \<or> (path d = path c \<and> version c \<le> version d)"
      by (rule newer_first_total)
    have "sorted_wrt (\<lambda>a b. Compare (path a) (path b) < 0 \<or>
                          (path a = path b \<and> version b \<le> version a)) (insertCommit c ds)"
      using Cons.IH Cons.prems by simp
    with False dc Cons.prems(2) show ?thesis by (simp add: set_insertCommit)
  qed
qed

lemma mset_SortFunc: "mset (SortFunc cs) = mset cs"
  by (induction cs) (simp_all add: SortFunc_def mset_insertCommit)

lemma set_SortFunc: "set (SortFunc cs) = set cs"
  using mset_SortFunc [of cs] by (metis set_mset_mset)

lemma sorted_SortFunc:
  assumes "\<forall>c \<in> set cs. 0 \<le> version c \<and> version c < 2 ^ 63"
  shows "sorted_wrt (\<lambda>a b. Compare (path a) (path b) < 0 \<or>
                          (path a = path b \<and> version b \<le> version a)) (SortFunc cs)"
  using assms
proof (induction cs)
  case Nil
  show ?case by (simp add: SortFunc_def)
next
  case (Cons c cs)
  have s: "SortFunc (c # cs) = insertCommit c (SortFunc cs)" by (simp add: SortFunc_def)
  show ?case unfolding s
  proof (rule sorted_insertCommit)
    show "0 \<le> version c \<and> version c < 2 ^ 63" using Cons.prems by simp
    show "\<forall>d \<in> set (SortFunc cs). 0 \<le> version d \<and> version d < 2 ^ 63"
      using Cons.prems by (simp add: set_SortFunc)
    show "sorted_wrt (\<lambda>a b. Compare (path a) (path b) < 0 \<or>
                          (path a = path b \<and> version b \<le> version a)) (SortFunc cs)"
      using Cons by simp
  qed
qed

lemma filter_commits_foldl:
  "foldl (\<lambda>cs cmt. if path cmt = p then cs @ [cmt] else cs) acc xs = acc @ filter (\<lambda>c. path c = p) xs"
  by (induction xs arbitrary: acc) auto

lemma filter_commits_eq:
  "filter_commits idx p = (if p = [] then commits idx else filter (\<lambda>c. path c = p) (commits idx))"
  by (simp add: filter_commits_def filter_commits_foldl)

lemma sorted_versions_of_path:
  assumes "sorted_wrt (\<lambda>a b. Compare (path a) (path b) < 0 \<or>
                          (path a = path b \<and> version b \<le> version a)) cs"
  shows "sorted_wrt (\<lambda>a b. version b \<le> version a) (filter (\<lambda>c. path c = p) cs)"
proof -
  have "sorted_wrt (\<lambda>a b. Compare (path a) (path b) < 0 \<or>
                          (path a = path b \<and> version b \<le> version a)) (filter (\<lambda>c. path c = p) cs)"
    using assms by (rule sorted_wrt_filter)
  then show ?thesis
    by (rule sorted_wrt_mono_rel [rotated]) (auto simp add: Compare_same)
qed

lemma deserializeCommit_version_range:
  "deserializeCommit lib s = Inr c \<Longrightarrow> - (2 ^ 63) \<le> version c \<and> version c < 2 ^ 63"
  by (auto simp add: deserializeCommit_def Let_def split: option.splits if_splits dest: Atoi_range)

lemma logRecords_version_range:
  assumes "\<forall>l \<in> set (rawLines data). \<exists>c. deserializeCommit lib (dropCR l) = Inr c"
  shows "\<forall>c \<in> set (logRecords lib data). version c < 2 ^ 63"
proof
  fix c assume "c \<in> set (logRecords lib data)"
  then obtain l where l: "l \<in> set (rawLines data)"
    and c: "c = projr (deserializeCommit lib (dropCR l))"
    by (auto simp add: logRecords_def)
  from assms l obtain c' where "deserializeCommit lib (dropCR l) = Inr c'" by blast
  with c show "version c < 2 ^ 63" using deserializeCommit_version_range [of lib "dropCR l" c'] by simp
qed

text \<open>
  C7, as amended. \<open>filter\<close> of a path that is not empty returns exactly the loaded
  records whose path is that path, and \<open>filter\<close> of the empty path returns all loaded
  records; the loaded records are those of the index file. Their order is not the order
  of the file: \<open>loadCommits\<close> has sorted them by path and, within a path, by descending
  version, so the records of one path come newest first (in an index file without
  negative versions, as commits write it, where the comparison does not overflow).
\<close>

theorem filter_commits_loaded:
  assumes "loadCommits lib idx w = Inr idx'"
  shows "(\<exists>data. fs w (commitsFile idx) = Some data \<and>
            mset (commits idx') = mset (logRecords lib data) \<and>
            mset (filter_commits idx' p) =
              mset (if p = [] then logRecords lib data
                    else filter (\<lambda>c. path c = p) (logRecords lib data))) \<and>
         filter_commits idx' [] = commits idx' \<and>
         (p \<noteq> [] \<longrightarrow> filter_commits idx' p = filter (\<lambda>c. path c = p) (commits idx')) \<and>
         ((\<forall>c \<in> set (commits idx'). 0 \<le> version c) \<longrightarrow>
            sorted_wrt (\<lambda>a b. Compare (path a) (path b) < 0 \<or>
                           (path a = path b \<and> version b \<le> version a)) (commits idx') \<and>
            (p \<noteq> [] \<longrightarrow> sorted_wrt (\<lambda>a b. version b \<le> version a) (filter_commits idx' p)))"
proof -
  from assms obtain data where data: "fs w (commitsFile idx) = Some data"
    and good: "\<forall>l \<in> set (rawLines data). length l < MaxScanTokenSize \<and>
           (\<exists>c. deserializeCommit lib (dropCR l) = Inr c)"
    and idx': "idx' = idx\<lparr>commits := SortFunc (logRecords lib data)\<rparr>"
    unfolding loadCommits_Inr_iff logRecords_def by blast
  have c: "commits idx' = SortFunc (logRecords lib data)" by (simp add: idx')
  have m: "mset (commits idx') = mset (logRecords lib data)" by (simp add: c mset_SortFunc)
  have mf: "mset (filter_commits idx' p) =
              mset (if p = [] then logRecords lib data
                    else filter (\<lambda>c. path c = p) (logRecords lib data))"
    using m by (simp add: filter_commits_eq)
  have up: "\<forall>c \<in> set (logRecords lib data). version c < 2 ^ 63"
    using good by (intro logRecords_version_range) blast
  have sorted: "(\<forall>c \<in> set (commits idx'). 0 \<le> version c) \<longrightarrow>
            sorted_wrt (\<lambda>a b. Compare (path a) (path b) < 0 \<or>
                           (path a = path b \<and> version b \<le> version a)) (commits idx') \<and>
            (p \<noteq> [] \<longrightarrow> sorted_wrt (\<lambda>a b. version b \<le> version a) (filter_commits idx' p))"
  proof
    assume nn: "\<forall>c \<in> set (commits idx'). 0 \<le> version c"
    then have "\<forall>c \<in> set (logRecords lib data). 0 \<le> version c \<and> version c < 2 ^ 63"
      using up by (simp add: c set_SortFunc)
    then have s: "sorted_wrt (\<lambda>a b. Compare (path a) (path b) < 0 \<or>
                           (path a = path b \<and> version b \<le> version a)) (commits idx')"
      unfolding c by (rule sorted_SortFunc)
    moreover have "p \<noteq> [] \<longrightarrow> sorted_wrt (\<lambda>a b. version b \<le> version a) (filter_commits idx' p)"
      using sorted_versions_of_path [OF s] by (simp add: filter_commits_eq)
    ultimately show "sorted_wrt (\<lambda>a b. Compare (path a) (path b) < 0 \<or>
                           (path a = path b \<and> version b \<le> version a)) (commits idx') \<and>
            (p \<noteq> [] \<longrightarrow> sorted_wrt (\<lambda>a b. version b \<le> version a) (filter_commits idx' p))"
      by blast
  qed
  from data m mf sorted show ?thesis by (simp add: filter_commits_eq)
qed

lemma line2_facts:
  "nl \<notin> set line2" "dropCR line2 = line2" "length line2 = 92"
  "deserializeCommit lib0 line2 = Inr cmt2"
  by (simp_all add: line2_def dropCR_def deserializeCommit_def lib0_fields parse_eval cmt2_def cmt1_def)

lemma rawLines_wlog: "rawLines (line1 @ [nl] @ line2 @ [nl]) = [line1, line2]"
proof -
  have "rawLines (line1 @ nl # (line2 @ nl # [])) = [line1, line2]"
    by (simp only: rawLines_line [OF line1_no_nl] rawLines_line [OF line2_facts(1)] rawLines_Nil)
  moreover have "line1 @ [nl] @ line2 @ [nl] = line1 @ nl # (line2 @ nl # [])" by simp
  ultimately show ?thesis by simp
qed

lemma logRecords_wlog: "logRecords lib0 (line1 @ [nl] @ line2 @ [nl]) = [cmt1, cmt2]"
  unfolding logRecords_def rawLines_wlog
  by (simp add: dropCR_line1 line2_facts deserialize_line1)

lemma SortFunc_cmt12: "SortFunc [cmt1, cmt2] = [cmt2, cmt1]"
  by (simp add: SortFunc_def cmpCommits_def wrapInt_def cmt1_def cmt2_def)

lemma loadCommits_wlog: "loadCommits lib0 idx0 wlog = Inr (idx0\<lparr>commits := [cmt2, cmt1]\<rparr>)"
proof -
  have f: "fs wlog (commitsFile idx0) = Some (line1 @ [nl] @ line2 @ [nl])"
    by (simp add: wlog_def idx0_fields)
  have "\<forall>l \<in> set (rawLines (line1 @ [nl] @ line2 @ [nl])). length l < MaxScanTokenSize \<and>
           (\<exists>c. deserializeCommit lib0 (dropCR l) = Inr c)"
    unfolding rawLines_wlog
    by (simp add: dropCR_line1 line2_facts deserialize_line1 length_line1)
  moreover have "idx0\<lparr>commits := [cmt2, cmt1]\<rparr> =
      idx0\<lparr>commits := SortFunc (logRecords lib0 (line1 @ [nl] @ line2 @ [nl]))\<rparr>"
    by (simp only: logRecords_wlog SortFunc_cmt12)
  ultimately show ?thesis
    using f unfolding loadCommits_Inr_iff logRecords_def [symmetric] by blast
qed

lemma filter_wlog: "filter_commits (idx0\<lparr>commits := [cmt2, cmt1]\<rparr>) ''/d'' = [cmt2, cmt1]"
  by (simp add: filter_commits_eq cmt1_def cmt2_def)

theorem filter_commits_order_counterexample:
  "fs wlog ''/c/sgvc/index'' = Some (line1 @ [nl] @ line2 @ [nl]) \<and>
   logRecords lib0 (line1 @ [nl] @ line2 @ [nl]) = [cmt1, cmt2] \<and>
   loadCommits lib0 idx0 wlog = Inr (idx0\<lparr>commits := [cmt2, cmt1]\<rparr>) \<and>
   filter_commits (idx0\<lparr>commits := [cmt2, cmt1]\<rparr>) ''/d'' = [cmt2, cmt1] \<and>
   [cmt2, cmt1] \<noteq> [cmt1, cmt2]"
proof -
  have "fs wlog ''/c/sgvc/index'' = Some (line1 @ [nl] @ line2 @ [nl])"
    by (simp add: wlog_def)
  moreover have "[cmt2, cmt1] \<noteq> [cmt1, cmt2]" by (simp add: cmt1_def cmt2_def)
  ultimately show ?thesis
    using logRecords_wlog loadCommits_wlog filter_wlog by blast
qed

theorem filter_commits_loaded_witness:
  "loadCommits lib0 idx0 wlog = Inr (idx0\<lparr>commits := [cmt2, cmt1]\<rparr>) \<and> ''/d'' \<noteq> [] \<and>
   0 \<le> version cmt2 \<and> 0 \<le> version cmt1 \<and>
   filter_commits (idx0\<lparr>commits := [cmt2, cmt1]\<rparr>) ''/d'' =
     filter (\<lambda>c. path c = ''/d'') (commits (idx0\<lparr>commits := [cmt2, cmt1]\<rparr>)) \<and>
   sorted_wrt (\<lambda>a b. version b \<le> version a) (filter_commits (idx0\<lparr>commits := [cmt2, cmt1]\<rparr>) ''/d'') \<and>
   map version (filter_commits (idx0\<lparr>commits := [cmt2, cmt1]\<rparr>) ''/d'') = [2, 1]"
proof -
  note t = filter_commits_loaded [OF loadCommits_wlog, of "''/d''"]
  have ne: "''/d'' \<noteq> []" by simp
  have v: "0 \<le> version cmt2" "0 \<le> version cmt1" by (simp_all add: cmt1_def cmt2_def)
  then have nn: "\<forall>c \<in> set (commits (idx0\<lparr>commits := [cmt2, cmt1]\<rparr>)). 0 \<le> version c" by simp
  from t ne have "filter_commits (idx0\<lparr>commits := [cmt2, cmt1]\<rparr>) ''/d'' =
     filter (\<lambda>c. path c = ''/d'') (commits (idx0\<lparr>commits := [cmt2, cmt1]\<rparr>))" by blast
  moreover from t ne nn have "sorted_wrt (\<lambda>a b. version b \<le> version a)
     (filter_commits (idx0\<lparr>commits := [cmt2, cmt1]\<rparr>) ''/d'')" by blast
  moreover have "map version (filter_commits (idx0\<lparr>commits := [cmt2, cmt1]\<rparr>) ''/d'') = [2, 1]"
    by (simp only: filter_wlog) (simp add: cmt1_def cmt2_def)
  ultimately show ?thesis using loadCommits_wlog ne v by blast
qed

section \<open>Runs of the program\<close>

lemma senv0_fields: "userCacheDir senv0 = Some ''/c''" "mkdirAllOk senv0" "createOk senv0"
  by (simp_all add: senv0_def)

lemma getIndex_first_run:
  "fs w ''/c/sgvc/index'' = None \<Longrightarrow>
   getIndex lib0 senv0 w = (Inr idx0, w\<lparr>fs := (fs w)(''/c/sgvc/index'' \<mapsto> [])\<rparr>)"
  by (simp add: getIndex_def senv0_fields Join_def Let_def loadCommits_def rawLines_Nil
      SortFunc_def idx0_def)

lemma getIndex_later_run:
  "fs w ''/c/sgvc/index'' = Some data \<Longrightarrow>
   getIndex lib0 senv0 w = (loadCommits lib0 idx0 w, w)"
  by (simp add: getIndex_def senv0_fields Join_def Let_def idx0_def)

lemma newCommit_ptab:
  "newCommit lib0 () idx0 ptab 0 ''m'' ''hello'' =
     \<lparr>path = ptab, cwhen = (), version = 1, basedOn = 0,
      pathSig = ''2f610962da39a3ee5e6b4b0d3255bfef95601890afd80709'',
      dataCrc = 907060870, changes = [CHR 0x22, CHR ''m'', CHR 0x22]\<rparr>"
  by (simp add: newCommit_def wrapInt_def currVersion_idx0 crc_hello lib0_fields)
    (simp add: ptab_def fmtX_def hexDigit_def sha1NewSum_def sha1Empty_def)

lemma filePath_ptab:
  "filePath idx0 (newCommit lib0 () idx0 ptab 0 ''m'' ''hello'') =
     ''/c/sgvc/2f610962da39a3ee5e6b4b0d3255bfef95601890afd80709-0001''"
  by (simp add: newCommit_ptab filePath_def Join_def idx0_fields fmt_eval)

lemma serialize_ptab:
  "serialize lib0 (newCommit lib0 () idx0 ptab 0 ''m'' ''hello'') =
     ''/a'' @ [tab] @ ''b'' @ [tab] @ ''2024-05-01T00:00:00Z'' @ [tab] @ ''0001'' @ [tab] @
     ''0000'' @ [tab] @ ''2f610962da39a3ee5e6b4b0d3255bfef95601890afd80709'' @ [tab] @
     ''907060870'' @ [tab] @ [CHR 0x22, CHR ''m'', CHR 0x22]"
  by (simp add: newCommit_ptab serialize_def lib0_fields fmt_eval) (simp add: ptab_def)

lemma mainAdd_ptab:
  "mainAdd lib0 senv0 () env0 wtab ptab 0 ''m'' =
     (None,
      \<lparr>fs = [ptab \<mapsto> ''hello'', ''/c/sgvc/index'' \<mapsto> [],
             ''/c/sgvc/2f610962da39a3ee5e6b4b0d3255bfef95601890afd80709-0001'' \<mapsto> ''hello'',
             ''/c/sgvc/index'' \<mapsto>
               serialize lib0 (newCommit lib0 () idx0 ptab 0 ''m'' ''hello'') @ [nl]],
       trace = [WriteFile ''/c/sgvc/2f610962da39a3ee5e6b4b0d3255bfef95601890afd80709-0001'' ''hello'' True,
                OpenFile ''/c/sgvc/index'' True,
                Fprintln ''/c/sgvc/index'' (serialize lib0 (newCommit lib0 () idx0 ptab 0 ''m'' ''hello'')) True]\<rparr>)"
proof -
  let ?w = "wtab\<lparr>fs := (fs wtab)(''/c/sgvc/index'' \<mapsto> [])\<rparr>"
  have none: "fs wtab ''/c/sgvc/index'' = None" by (simp add: wtab_def ptab_def)
  have g: "getIndex lib0 senv0 wtab = (Inr idx0, ?w)" by (rule getIndex_first_run [OF none])
  have c: "commit lib0 () env0 idx0 ?w ptab 0 ''m'' =
     (None,
      ?w\<lparr>fs := (fs ?w)(filePath idx0 (newCommit lib0 () idx0 ptab 0 ''m'' ''hello'') \<mapsto> ''hello'',
                 commitsFile idx0 \<mapsto> [] @ serialize lib0 (newCommit lib0 () idx0 ptab 0 ''m'' ''hello'') @ [nl]),
        trace := trace ?w @
          [WriteFile (filePath idx0 (newCommit lib0 () idx0 ptab 0 ''m'' ''hello'')) ''hello'' True,
           OpenFile (commitsFile idx0) True,
           Fprintln (commitsFile idx0) (serialize lib0 (newCommit lib0 () idx0 ptab 0 ''m'' ''hello'')) True]\<rparr>)"
    by (rule commit_succeeds)
      (simp_all add: wtab_def currVersion_idx0 env0_fields idx0_fields filePath_ptab, simp add: ptab_def)
  show ?thesis
    by (simp add: mainAdd_def g c filePath_ptab idx0_fields) (simp add: wtab_def)
qed


lemma line_ptab_facts:
  "nl \<notin> set (serialize lib0 (newCommit lib0 () idx0 ptab 0 ''m'' ''hello''))"
  "length (serialize lib0 (newCommit lib0 () idx0 ptab 0 ''m'' ''hello'')) < MaxScanTokenSize"
  "deserializeCommit lib0 (dropCR (serialize lib0 (newCommit lib0 () idx0 ptab 0 ''m'' ''hello''))) =
     Inl (Malformed ''malformed line'')"
  by (simp_all add: serialize_ptab dropCR_def deserializeCommit_def)

lemma loadCommits_ptab:
  assumes "fs w ''/c/sgvc/index'' =
     Some (serialize lib0 (newCommit lib0 () idx0 ptab 0 ''m'' ''hello'') @ [nl])"
  shows "loadCommits lib0 idx0 w = Inl (Fatal 1 (Malformed ''malformed line''))"
proof -
  let ?l = "serialize lib0 (newCommit lib0 () idx0 ptab 0 ''m'' ''hello'')"
  have r: "rawLines (?l @ [nl]) = [] @ ?l # []"
    using rawLines_line [OF line_ptab_facts(1), of "[]"] by (simp add: rawLines_Nil)
  have f: "fs w (commitsFile idx0) = Some (?l @ [nl])" using assms by (simp add: idx0_fields)
  have "loadCommits lib0 idx0 w = Inl (Fatal (length ([] :: string list) + 1) (Malformed ''malformed line''))"
    by (rule loadCommits_first_bad [OF f r _ line_ptab_facts(2) line_ptab_facts(3)]) simp
  then show ?thesis by simp
qed

text \<open>
  C1: every successful commit of bytes at a path can be extracted again, with the version
  it was given. This fails for a path that holds a tab. Committing the file \<open>/a<tab>b\<close>
  with the bytes \<open>hello\<close> succeeds and stores them as version 1; the line appended to the
  index has eight fields, so the next run, which is to extract version 1, ends in
  \<open>log.Fatalf\<close> while it loads the index.
\<close>

theorem commit_then_extract_path_with_tab:
  "fs wtab ptab = Some ''hello'' \<and>
   fst (mainAdd lib0 senv0 () env0 wtab ptab 0 ''m'') = None \<and>
   fs (snd (mainAdd lib0 senv0 () env0 wtab ptab 0 ''m''))
     ''/c/sgvc/2f610962da39a3ee5e6b4b0d3255bfef95601890afd80709-0001'' = Some ''hello'' \<and>
   length (split tab (serialize lib0 (newCommit lib0 () idx0 ptab 0 ''m'' ''hello''))) = 8 \<and>
   fst (mainCat lib0 senv0 (snd (mainAdd lib0 senv0 () env0 wtab ptab 0 ''m'')) ptab 1) =
     Inl (Fatal 1 (Malformed ''malformed line''))"
proof -
  let ?w' = "snd (mainAdd lib0 senv0 () env0 wtab ptab 0 ''m'')"
  have 1: "fs wtab ptab = Some ''hello''" by (simp add: wtab_def)
  have 2: "fst (mainAdd lib0 senv0 () env0 wtab ptab 0 ''m'') = None" by (simp add: mainAdd_ptab)
  have 3: "fs ?w' ''/c/sgvc/2f610962da39a3ee5e6b4b0d3255bfef95601890afd80709-0001'' = Some ''hello''"
    by (simp add: mainAdd_ptab)
  have 4: "length (split tab (serialize lib0 (newCommit lib0 () idx0 ptab 0 ''m'' ''hello''))) = 8"
    by (simp add: serialize_ptab)
  have i: "fs ?w' ''/c/sgvc/index'' =
     Some (serialize lib0 (newCommit lib0 () idx0 ptab 0 ''m'' ''hello'') @ [nl])"
    by (simp add: mainAdd_ptab)
  have "getIndex lib0 senv0 ?w' = (loadCommits lib0 idx0 ?w', ?w')"
    by (rule getIndex_later_run [OF i])
  then have 5: "fst (mainCat lib0 senv0 ?w' ptab 1) = Inl (Fatal 1 (Malformed ''malformed line''))"
    by (simp add: mainCat_def loadCommits_ptab [OF i])
  from 1 2 3 4 5 show ?thesis by blast
qed



lemma newCommit_pinj:
  "newCommit lib0 () idx0 pinj 0 ''m'' ''hello'' =
     \<lparr>path = pinj, cwhen = (), version = 1, basedOn = 0,
      pathSig = ''2f7009323032342d30352d30315430303a30303a30305a09370930090930090a2f71da39a3ee5e6b4b0d3255bfef95601890afd80709'',
      dataCrc = 907060870, changes = [CHR 0x22, CHR ''m'', CHR 0x22]\<rparr>"
  by (simp add: newCommit_def wrapInt_def currVersion_idx0 crc_hello lib0_fields)
    (simp add: pinj_def fmtX_def hexDigit_def sha1NewSum_def sha1Empty_def)

lemma filePath_pinj:
  "filePath idx0 (newCommit lib0 () idx0 pinj 0 ''m'' ''hello'') =
     ''/c/sgvc/2f7009323032342d30352d30315430303a30303a30305a09370930090930090a2f71da39a3ee5e6b4b0d3255bfef95601890afd80709-0001''"
  by (simp add: newCommit_pinj filePath_def Join_def idx0_fields fmt_eval)

lemma serialize_pinj:
  "serialize lib0 (newCommit lib0 () idx0 pinj 0 ''m'' ''hello'') = lineP @ nl # lineQ"
  by (simp add: newCommit_pinj serialize_def lib0_fields fmt_eval)
    (simp add: pinj_def lineP_def lineQ_def)

lemma linePQ_facts:
  "nl \<notin> set lineP" "nl \<notin> set lineQ" "dropCR lineP = lineP" "dropCR lineQ = lineQ"
  "length lineP < MaxScanTokenSize" "length lineQ < MaxScanTokenSize"
  by (simp_all add: lineP_def lineQ_def dropCR_def)

lemma deserialize_linePQ:
  "deserializeCommit lib0 lineP = Inr cmtP" "deserializeCommit lib0 lineQ = Inr cmtQ"
  by (simp_all add: lineP_def lineQ_def deserializeCommit_def lib0_fields parse_eval cmtP_def cmtQ_def)

lemma SortFunc_cmtPQ: "SortFunc [cmtP, cmtQ] = [cmtP, cmtQ]"
  by (simp add: SortFunc_def cmpCommits_def wrapInt_def cmtP_def cmtQ_def)



lemma mainAdd_pinj:
  "mainAdd lib0 senv0 () env0 winj pinj 0 ''m'' =
     (None,
      \<lparr>fs = [pinj \<mapsto> ''hello'', ''/c/sgvc/index'' \<mapsto> [],
             ''/c/sgvc/2f7009323032342d30352d30315430303a30303a30305a09370930090930090a2f71da39a3ee5e6b4b0d3255bfef95601890afd80709-0001'' \<mapsto> ''hello'',
             ''/c/sgvc/index'' \<mapsto> (lineP @ nl # lineQ) @ [nl]],
       trace = [WriteFile ''/c/sgvc/2f7009323032342d30352d30315430303a30303a30305a09370930090930090a2f71da39a3ee5e6b4b0d3255bfef95601890afd80709-0001'' ''hello'' True,
                OpenFile ''/c/sgvc/index'' True,
                Fprintln ''/c/sgvc/index'' (lineP @ nl # lineQ) True]\<rparr>)"
proof -
  let ?w = "winj\<lparr>fs := (fs winj)(''/c/sgvc/index'' \<mapsto> [])\<rparr>"
  have none: "fs winj ''/c/sgvc/index'' = None" by (simp add: winj_def pinj_def)
  have g: "getIndex lib0 senv0 winj = (Inr idx0, ?w)" by (rule getIndex_first_run [OF none])
  have c: "commit lib0 () env0 idx0 ?w pinj 0 ''m'' =
     (None,
      ?w\<lparr>fs := (fs ?w)(filePath idx0 (newCommit lib0 () idx0 pinj 0 ''m'' ''hello'') \<mapsto> ''hello'',
                 commitsFile idx0 \<mapsto> [] @ serialize lib0 (newCommit lib0 () idx0 pinj 0 ''m'' ''hello'') @ [nl]),
        trace := trace ?w @
          [WriteFile (filePath idx0 (newCommit lib0 () idx0 pinj 0 ''m'' ''hello'')) ''hello'' True,
           OpenFile (commitsFile idx0) True,
           Fprintln (commitsFile idx0) (serialize lib0 (newCommit lib0 () idx0 pinj 0 ''m'' ''hello'')) True]\<rparr>)"
    by (rule commit_succeeds)
      (simp_all add: winj_def currVersion_idx0 env0_fields idx0_fields filePath_pinj, simp add: pinj_def)
  show ?thesis
    by (simp add: mainAdd_def g c filePath_pinj serialize_pinj idx0_fields) (simp add: winj_def)
qed

lemma loadCommits_pinj:
  assumes "fs w ''/c/sgvc/index'' = Some ((lineP @ nl # lineQ) @ [nl])"
  shows "loadCommits lib0 idx0 w = Inr (idx0\<lparr>commits := [cmtP, cmtQ]\<rparr>)"
proof -
  have "rawLines (lineP @ nl # (lineQ @ nl # [])) = [lineP, lineQ]"
    by (simp only: rawLines_line [OF linePQ_facts(1)] rawLines_line [OF linePQ_facts(2)] rawLines_Nil)
  moreover have "(lineP @ nl # lineQ) @ [nl] = lineP @ nl # (lineQ @ nl # [])" by simp
  ultimately have r: "rawLines ((lineP @ nl # lineQ) @ [nl]) = [lineP, lineQ]" by simp
  have f: "fs w (commitsFile idx0) = Some ((lineP @ nl # lineQ) @ [nl])"
    using assms by (simp add: idx0_fields)
  have a: "\<forall>l \<in> set (rawLines ((lineP @ nl # lineQ) @ [nl])). length l < MaxScanTokenSize \<and>
           (\<exists>c. deserializeCommit lib0 (dropCR l) = Inr c)"
    unfolding r using linePQ_facts deserialize_linePQ by simp
  have "logRecords lib0 ((lineP @ nl # lineQ) @ [nl]) = [cmtP, cmtQ]"
    unfolding logRecords_def r by (simp add: linePQ_facts deserialize_linePQ)
  then have "idx0\<lparr>commits := [cmtP, cmtQ]\<rparr> =
      idx0\<lparr>commits := SortFunc (logRecords lib0 ((lineP @ nl # lineQ) @ [nl]))\<rparr>"
    by (simp only: SortFunc_cmtPQ)
  with f a show ?thesis
    unfolding loadCommits_Inr_iff logRecords_def [symmetric] by blast
qed

text \<open>
  C2: after any sequence of successful commits the versions recorded for a path are
  1, 2, ... up to its current version, without gaps. This fails when a committed path
  holds tabs and a newline. One commit of the file \<open>pinj\<close>, in a work directory in which
  nothing was committed before, succeeds; the line it appends is read back as two
  records, and the index then holds version 7 of the path \<open>/p\<close>, with no version 1 to 6,
  and no record of \<open>pinj\<close>.
\<close>

theorem commit_path_with_newline_breaks_versions:
  "fst (mainAdd lib0 senv0 () env0 winj pinj 0 ''m'') = None \<and>
   fst (getIndex lib0 senv0 (snd (mainAdd lib0 senv0 () env0 winj pinj 0 ''m''))) =
     Inr (idx0\<lparr>commits := [cmtP, cmtQ]\<rparr>) \<and>
   map version (filter_commits (idx0\<lparr>commits := [cmtP, cmtQ]\<rparr>) ''/p'') = [7] \<and>
   currVersion (idx0\<lparr>commits := [cmtP, cmtQ]\<rparr>) ''/p'' = 7 \<and>
   filter_commits (idx0\<lparr>commits := [cmtP, cmtQ]\<rparr>) pinj = []"
proof -
  let ?w' = "snd (mainAdd lib0 senv0 () env0 winj pinj 0 ''m'')"
  have 1: "fst (mainAdd lib0 senv0 () env0 winj pinj 0 ''m'') = None" by (simp add: mainAdd_pinj)
  have i: "fs ?w' ''/c/sgvc/index'' = Some ((lineP @ nl # lineQ) @ [nl])"
    by (simp add: mainAdd_pinj)
  have "getIndex lib0 senv0 ?w' = (loadCommits lib0 idx0 ?w', ?w')"
    by (rule getIndex_later_run [OF i])
  then have 2: "fst (getIndex lib0 senv0 ?w') = Inr (idx0\<lparr>commits := [cmtP, cmtQ]\<rparr>)"
    by (simp add: loadCommits_pinj [OF i])
  have 3: "map version (filter_commits (idx0\<lparr>commits := [cmtP, cmtQ]\<rparr>) ''/p'') = [7]"
    by (simp add: filter_commits_eq cmtP_def cmtQ_def)
  have 4: "currVersion (idx0\<lparr>commits := [cmtP, cmtQ]\<rparr>) ''/p'' = 7"
    by (simp add: currVersion_def cmtP_def cmtQ_def)
  have 5: "filter_commits (idx0\<lparr>commits := [cmtP, cmtQ]\<rparr>) pinj = []"
    by (simp add: filter_commits_eq cmtP_def cmtQ_def pinj_def)
  from 1 2 3 4 5 show ?thesis by blast
qed



section \<open>Formatting and parsing numbers\<close>

lemma less_10_cases:
  "(d::nat) < 10 \<Longrightarrow> d = 0 \<or> d = 1 \<or> d = 2 \<or> d = 3 \<or> d = 4 \<or> d = 5 \<or> d = 6 \<or> d = 7 \<or> d = 8 \<or> d = 9"
  by arith

lemma digitVal_digitChar: "d < 10 \<Longrightarrow> digitVal (digitChar d) = Some d"
  by (drule less_10_cases) (auto simp add: digitChar_def digitVal_def)

lemma digits_not_Nil: "digits n \<noteq> []"
  by (subst digits.simps) simp

lemma digitVal_digits: "c \<in> set (digits n) \<Longrightarrow> digitVal c \<noteq> None"
proof (induction n rule: digits.induct)
  case (1 n)
  show ?case
  proof (cases "n < 10")
    case True
    with "1.prems" have "c = digitChar n" by (subst (asm) digits.simps) simp
    with True show ?thesis by (simp add: digitVal_digitChar)
  next
    case False
    with "1.prems" have "c \<in> set (digits (n div 10)) \<or> c = digitChar (n mod 10)"
      by (subst (asm) digits.simps) auto
    then show ?thesis
    proof
      assume "c \<in> set (digits (n div 10))"
      with False "1.IH" show ?thesis by simp
    next
      assume "c = digitChar (n mod 10)"
      then show ?thesis by (simp add: digitVal_digitChar)
    qed
  qed
qed

lemma parseDigitsFrom_append:
  "parseDigitsFrom n (xs @ ys) =
     (case parseDigitsFrom n xs of None \<Rightarrow> None | Some k \<Rightarrow> parseDigitsFrom k ys)"
  by (induction xs arbitrary: n) (auto split: option.splits)

lemma parseDigitsFrom_digits: "parseDigitsFrom 0 (digits m) = Some m"
proof (induction m rule: digits.induct)
  case (1 m)
  show ?case
  proof (cases "m < 10")
    case True
    then have "digits m = [digitChar m]" by (subst digits.simps) simp
    with True show ?thesis by (simp add: digitVal_digitChar)
  next
    case False
    then have d: "digits m = digits (m div 10) @ [digitChar (m mod 10)]"
      by (subst digits.simps) simp
    from False "1.IH" have "parseDigitsFrom 0 (digits (m div 10)) = Some (m div 10)" by simp
    then show ?thesis
      by (simp add: d parseDigitsFrom_append digitVal_digitChar)
  qed
qed

lemma parseDigitsFrom_zeros:
  "parseDigitsFrom 0 (replicate k (CHR ''0'') @ s) = parseDigitsFrom 0 s"
  by (induction k) (simp_all add: digitVal_def)

lemma parseDigits_padZero: "parseDigits (padZero w (digits m)) = Some m"
  by (simp add: parseDigits_def padZero_def digits_not_Nil parseDigitsFrom_zeros
      parseDigitsFrom_digits)

lemma digitVal_padZero: "c \<in> set (padZero w (digits m)) \<Longrightarrow> digitVal c \<noteq> None"
proof -
  assume "c \<in> set (padZero w (digits m))"
  then have "c = CHR ''0'' \<or> c \<in> set (digits m)"
    by (auto simp add: padZero_def)
  then show ?thesis
  proof
    assume "c = CHR ''0''"
    then show ?thesis by (simp add: digitVal_def)
  next
    assume "c \<in> set (digits m)"
    then show ?thesis by (rule digitVal_digits)
  qed
qed

lemma padZero_not_Nil: "padZero w (digits m) \<noteq> []"
  by (simp add: padZero_def digits_not_Nil)

lemma Atoi_fmtPadD:
  assumes "- (2 ^ 63) \<le> v" and "v < 2 ^ 63"
  shows "Atoi (fmtPadD w v) = Some v"
proof (cases "v < 0")
  case True
  have "parseDigits (padZero (w - 1) (digits (nat (- v)))) = Some (nat (- v))"
    by (rule parseDigits_padZero)
  with True assms show ?thesis by (simp add: Atoi_def fmtPadD_def)
next
  case False
  obtain c cs where s: "padZero w (digits (nat v)) = c # cs"
    using padZero_not_Nil [of w "nat v"] by (cases "padZero w (digits (nat v))") auto
  then have "c \<in> set (padZero w (digits (nat v)))" by simp
  then have "digitVal c \<noteq> None" by (rule digitVal_padZero)
  then have c: "c \<noteq> CHR ''-''" "c \<noteq> CHR ''+''" by (auto simp add: digitVal_def)
  have "parseDigits (c # cs) = Some (nat v)" using parseDigits_padZero [of w "nat v"] s by simp
  with False assms c s show ?thesis by (simp add: Atoi_def fmtPadD_def)
qed

lemma ParseUint32_digits: "n < 2 ^ 32 \<Longrightarrow> ParseUint32 (digits n) = Some n"
  using parseDigits_padZero [of 0 n] by (simp add: ParseUint32_def padZero_def)



section \<open>A serialized commit is read back\<close>

lemma fmtPadD_chars:
  "c \<in> set (fmtPadD w v) \<Longrightarrow> digitVal c \<noteq> None \<or> c = CHR ''-''"
  by (auto simp add: fmtPadD_def dest: digitVal_padZero split: if_splits)

lemma fmtPadD_no_sep: "tab \<notin> set (fmtPadD w v)" "nl \<notin> set (fmtPadD w v)"
  using fmtPadD_chars [of tab w v] fmtPadD_chars [of nl w v]
  by (auto simp add: digitVal_def)

lemma digits_no_sep: "tab \<notin> set (digits n)" "nl \<notin> set (digits n)"
  using digitVal_digits [of tab n] digitVal_digits [of nl n]
  by (auto simp add: digitVal_def)

lemma hexDigit_mem: "d < 16 \<Longrightarrow> hexDigit d \<in> set ''0123456789abcdef''"
  unfolding hexDigit_def by (rule nth_mem) simp

lemma fmtX_chars: "c \<in> set (fmtX bs) \<Longrightarrow> c \<in> set ''0123456789abcdef''"
proof -
  assume "c \<in> set (fmtX bs)"
  then obtain b where "c = hexDigit ((of_char b :: nat) div 16) \<or> c = hexDigit ((of_char b :: nat) mod 16)"
    by (auto simp add: fmtX_def)
  moreover have "(of_char b :: nat) div 16 < 16"
  proof -
    have "(of_char b :: nat) mod 256 < 256" by (rule mod_less_divisor) simp
    then have "(of_char b :: nat) < 256" by (simp only: of_char_mod_256)
    then show ?thesis by arith
  qed
  moreover have "(of_char b :: nat) mod 16 < 16" by simp
  ultimately show ?thesis using hexDigit_mem by metis
qed

lemma fmtX_no_sep: "tab \<notin> set (fmtX bs)" "nl \<notin> set (fmtX bs)" "CHR ''-'' \<notin> set (fmtX bs)"
  using fmtX_chars [of tab bs] fmtX_chars [of nl bs] fmtX_chars [of "CHR ''-''" bs]
  by auto

lemma split_seven:
  assumes "sep \<notin> set f1" "sep \<notin> set f2" "sep \<notin> set f3" "sep \<notin> set f4" "sep \<notin> set f5"
    "sep \<notin> set f6" "sep \<notin> set f7"
  shows "split sep (f1 @ [sep] @ f2 @ [sep] @ f3 @ [sep] @ f4 @ [sep] @ f5 @ [sep] @ f6 @ [sep] @ f7) =
     [f1, f2, f3, f4, f5, f6, f7]"
proof -
  have "split sep (f1 @ sep # (f2 @ sep # (f3 @ sep # (f4 @ sep # (f5 @ sep # (f6 @ sep # f7)))))) =
     [f1, f2, f3, f4, f5, f6, f7]"
    by (simp only: split_append_sep [OF assms(1)] split_append_sep [OF assms(2)]
        split_append_sep [OF assms(3)] split_append_sep [OF assms(4)]
        split_append_sep [OF assms(5)] split_append_sep [OF assms(6)] split_no_sep [OF assms(7)])
  then show ?thesis by simp
qed

text \<open>
  \<open>deserializeCommit\<close> gives back what \<open>serialize\<close> was given, but for the time, which is
  parsed from its text, when no text field holds a tab and the two integers are within
  64 bits.
\<close>

lemma deserialize_serialize:
  assumes "tab \<notin> set (path cmt)" and "tab \<notin> set (timeFormat lib (cwhen cmt))"
    and "timeParse lib (timeFormat lib (cwhen cmt)) = Some t"
    and "tab \<notin> set (pathSig cmt)" and "tab \<notin> set (changes cmt)"
    and "- (2 ^ 63) \<le> version cmt" and "version cmt < 2 ^ 63"
    and "- (2 ^ 63) \<le> basedOn cmt" and "basedOn cmt < 2 ^ 63"
  shows "deserializeCommit lib (serialize lib cmt) = Inr (cmt\<lparr>cwhen := t\<rparr>)"
proof -
  have sp: "split tab (serialize lib cmt) =
     [path cmt, timeFormat lib (cwhen cmt), fmtPadD maxVersionLength (version cmt),
      fmtPadD maxVersionLength (basedOn cmt), pathSig cmt, digits (unat (dataCrc cmt)), changes cmt]"
    unfolding serialize_def
    by (rule split_seven) (simp_all add: assms fmtPadD_no_sep digits_no_sep)
  have v: "Atoi (fmtPadD maxVersionLength (version cmt)) = Some (version cmt)"
    using assms by (intro Atoi_fmtPadD)
  have b: "Atoi (fmtPadD maxVersionLength (basedOn cmt)) = Some (basedOn cmt)"
    using assms by (intro Atoi_fmtPadD)
  have "unat (dataCrc cmt) < 2 ^ 32" using unsigned_less [of "dataCrc cmt"] by simp
  then have c: "ParseUint32 (digits (unat (dataCrc cmt))) = Some (unat (dataCrc cmt))"
    by (rule ParseUint32_digits)
  show ?thesis
    by (simp add: deserializeCommit_def sp assms(3) v b c)
qed



section \<open>The index file after one more line\<close>

lemma split_snoc_sep: "split sep (xs @ [sep]) = split sep xs @ [[]]"
proof (induction xs)
  case Nil
  show ?case by simp
next
  case (Cons c xs)
  obtain p ps where "split sep xs = p # ps"
    using split_not_Nil [of sep xs] by (cases "split sep xs") auto
  with Cons show ?case by simp
qed

lemma split_append: "split sep (xs @ sep # ys) = split sep xs @ split sep ys"
proof (induction xs)
  case Nil
  show ?case by simp
next
  case (Cons c xs)
  obtain p ps where "split sep xs = p # ps"
    using split_not_Nil [of sep xs] by (cases "split sep xs") auto
  with Cons show ?case by simp
qed

lemma rawLines_terminated: "rawLines (xs @ [nl]) = split nl xs"
  by (simp add: rawLines_def split_snoc_sep)

text \<open>
  An index file is empty or ends in a newline when only successful commits have written
  it; a line appended to such a file is its last line.
\<close>

lemma rawLines_append_line:
  assumes "old = [] \<or> last old = nl" and "nl \<notin> set line"
  shows "rawLines (old @ line @ [nl]) = rawLines old @ [line]"
proof (cases "old = []")
  case True
  with assms(2) show ?thesis
    using rawLines_terminated [of line] by (simp add: rawLines_Nil split_no_sep)
next
  case False
  with assms(1) obtain o' where o: "old = o' @ [nl]"
    by (metis append_butlast_last_id)
  have "rawLines (old @ line @ [nl]) = split nl (old @ line)"
    using rawLines_terminated [of "old @ line"] by simp
  also have "\<dots> = split nl (o' @ nl # line)" by (simp add: o)
  also have "\<dots> = split nl o' @ split nl line" by (rule split_append)
  also have "\<dots> = rawLines old @ [line]"
    using assms(2) by (simp add: o rawLines_terminated split_no_sep)
  finally show ?thesis .
qed

lemma logRecords_append_line:
  assumes "old = [] \<or> last old = nl" and "nl \<notin> set line"
  shows "logRecords lib (old @ line @ [nl]) =
     logRecords lib old @ [projr (deserializeCommit lib (dropCR line))]"
  by (simp add: logRecords_def rawLines_append_line [OF assms])

lemma loadCommits_Inr_logRecords:
  "loadCommits lib idx w = Inr idx' \<longleftrightarrow>
     (\<exists>data. fs w (commitsFile idx) = Some data \<and>
        (\<forall>l \<in> set (rawLines data). length l < MaxScanTokenSize \<and>
           (\<exists>c. deserializeCommit lib (dropCR l) = Inr c)) \<and>
        idx' = idx\<lparr>commits := SortFunc (logRecords lib data)\<rparr>)"
  unfolding loadCommits_Inr_iff logRecords_def by (rule refl)

text \<open>Loading a file that got one more line, which is read back as the commit \<open>c\<close>.\<close>

lemma loadCommits_append_line:
  assumes load: "loadCommits lib idx w = Inr idx'"
    and old: "fs w (commitsFile idx) = Some old" "old = [] \<or> last old = nl"
    and new: "fs w' (commitsFile idx) = Some (old @ line @ [nl])"
    and line: "nl \<notin> set line" "length line < MaxScanTokenSize"
      "deserializeCommit lib (dropCR line) = Inr c"
  shows "loadCommits lib idx w' =
     Inr (idx\<lparr>commits := SortFunc (logRecords lib old @ [c])\<rparr>)"
proof -
  from load old(1) have good: "\<forall>l \<in> set (rawLines old). length l < MaxScanTokenSize \<and>
           (\<exists>c. deserializeCommit lib (dropCR l) = Inr c)"
    unfolding loadCommits_Inr_logRecords by auto
  have r: "rawLines (old @ line @ [nl]) = rawLines old @ [line]"
    using old(2) line(1) by (rule rawLines_append_line)
  have all: "\<forall>l \<in> set (rawLines (old @ line @ [nl])). length l < MaxScanTokenSize \<and>
           (\<exists>c. deserializeCommit lib (dropCR l) = Inr c)"
    unfolding r using good line by auto
  have "logRecords lib (old @ line @ [nl]) = logRecords lib old @ [c]"
    using logRecords_append_line [OF old(2) line(1), of lib] line(3) by simp
  then have "idx\<lparr>commits := SortFunc (logRecords lib old @ [c])\<rparr> =
      idx\<lparr>commits := SortFunc (logRecords lib (old @ line @ [nl]))\<rparr>" by simp
  with new all show ?thesis
    unfolding loadCommits_Inr_logRecords by blast
qed



section \<open>A commit of a path without tab and newline is read back\<close>

lemma newCommit_fields:
  "path (newCommit lib now idx p b msg data) = p"
  "cwhen (newCommit lib now idx p b msg data) = now"
  "version (newCommit lib now idx p b msg data) = wrapInt (currVersion idx p + 1)"
  "basedOn (newCommit lib now idx p b msg data) = b"
  "pathSig (newCommit lib now idx p b msg data) = fmtX (sha1NewSum p)"
  "dataCrc (newCommit lib now idx p b msg data) = ChecksumIEEE data"
  "changes (newCommit lib now idx p b msg data) = quote lib msg"
  by (simp_all add: newCommit_def)

lemma newCommit_version:
  "currVersion idx p + 1 < 2 ^ 63 \<Longrightarrow>
   version (newCommit lib now idx p b msg data) = currVersion idx p + 1"
  using currVersion_nonneg [of idx p] by (simp add: newCommit_fields wrapInt_id)

lemma filePath_not_index: "filePath idx cmt \<noteq> Join (workDir idx) ''index''"
proof
  assume "filePath idx cmt = Join (workDir idx) ''index''"
  then have "pathSig cmt @ ''-'' @ fmtPadD maxVersionLength (version cmt) = ''index''"
    by (simp add: filePath_def Join_def)
  then have "CHR ''-'' \<in> set ''index''" by (metis in_set_conv_decomp append_Cons append_Nil)
  then show False by simp
qed

lemma serialize_no_nl:
  assumes "nl \<notin> set (path cmt)" and "nl \<notin> set (timeFormat lib (cwhen cmt))"
    and "nl \<notin> set (pathSig cmt)" and "nl \<notin> set (changes cmt)"
  shows "nl \<notin> set (serialize lib cmt)"
  using assms by (simp add: serialize_def fmtPadD_no_sep digits_no_sep)

lemma dropCR_serialize:
  assumes "cr \<notin> set (changes cmt)"
  shows "dropCR (serialize lib cmt) = serialize lib cmt"
proof -
  obtain pre where s: "serialize lib cmt = pre @ [tab] @ changes cmt"
    by (simp add: serialize_def)
  have "last (pre @ [tab] @ changes cmt) \<noteq> cr"
  proof (cases "changes cmt = []")
    case True
    then show ?thesis by simp
  next
    case False
    then have "last (pre @ [tab] @ changes cmt) = last (changes cmt)" by simp
    moreover have "last (changes cmt) \<in> set (changes cmt)" using False by simp
    ultimately show ?thesis using assms by metis
  qed
  then show ?thesis by (simp add: dropCR_def s)
qed

text \<open>
  The index after a successful commit of a path without tab and newline, loaded by the
  next run: the records of the file before and the new commit.
\<close>

lemma commit_then_load:
  assumes lib: "libOk lib" and p: "tab \<notin> set p" "nl \<notin> set p"
    and load: "loadCommits lib idx w = Inr idx"
    and old: "fs w (commitsFile idx) = Some old" "old = [] \<or> last old = nl"
    and cf: "commitsFile idx = Join (workDir idx) ''index''"
    and ok: "commit lib now env idx w p b msg = (None, w')"
    and data: "fs w p = Some data"
    and v: "currVersion idx p + 1 < 2 ^ 63" and b: "- (2 ^ 63) \<le> b" "b < 2 ^ 63"
    and len: "length (serialize lib (newCommit lib now idx p b msg data)) < MaxScanTokenSize"
  shows "\<exists>t. timeParse lib (timeFormat lib now) = Some t \<and>
           loadCommits lib idx w' =
             Inr (idx\<lparr>commits := SortFunc (logRecords lib old @
                    [(newCommit lib now idx p b msg data)\<lparr>cwhen := t\<rparr>])\<rparr>)"
    and "fs w' (filePath idx (newCommit lib now idx p b msg data)) = Some data"
proof -
  let ?cmt = "newCommit lib now idx p b msg data"
  let ?line = "serialize lib ?cmt"
  from lib obtain t where t: "timeParse lib (timeFormat lib now) = Some t"
    unfolding libOk_def by (metis option.exhaust)
  have tf: "tab \<notin> set (timeFormat lib now)" "nl \<notin> set (timeFormat lib now)"
    and q: "tab \<notin> set (quote lib msg)" "nl \<notin> set (quote lib msg)" "cr \<notin> set (quote lib msg)"
    using lib unfolding libOk_def by blast+
  have ne: "commitsFile idx \<noteq> filePath idx ?cmt"
    using filePath_not_index [of idx ?cmt] cf by simp
  from ok have c: "fst (commit lib now env idx w p b msg) = None" by simp
  then have env: "b = 0 \<or> b \<le> currVersion idx p" "writeFileOutcome env = Ok" "openFileOk env"
    "fprintlnOutcome env = Ok"
    unfolding commit_None_iff using data by auto
  have w': "w' = w\<lparr>fs := (fs w)(filePath idx ?cmt \<mapsto> data, commitsFile idx \<mapsto> old @ ?line @ [nl]),
        trace := trace w @
          [WriteFile (filePath idx ?cmt) data True, OpenFile (commitsFile idx) True,
           Fprintln (commitsFile idx) ?line True]\<rparr>"
    using commit_succeeds [OF data env(1) env(2) env(3) env(4) old(1) ne] ok
    by simp
  show "fs w' (filePath idx ?cmt) = Some data" using ne by (simp add: w')
  have new: "fs w' (commitsFile idx) = Some (old @ ?line @ [nl])" by (simp add: w')
  have nonl: "nl \<notin> set ?line"
    by (rule serialize_no_nl) (simp_all add: newCommit_fields p tf q fmtX_no_sep)
  have dcr: "dropCR ?line = ?line"
    by (rule dropCR_serialize) (simp add: newCommit_fields q)
  have vr: "version ?cmt = currVersion idx p + 1" using v by (rule newCommit_version)
  have "deserializeCommit lib ?line = Inr (?cmt\<lparr>cwhen := t\<rparr>)"
  proof (rule deserialize_serialize)
    show "timeParse lib (timeFormat lib (cwhen ?cmt)) = Some t" by (simp add: newCommit_fields t)
    show "- (2 ^ 63) \<le> version ?cmt" using currVersion_nonneg [of idx p] by (simp add: vr)
    show "version ?cmt < 2 ^ 63" using v by (simp add: vr)
    show "- (2 ^ 63) \<le> basedOn ?cmt" using b by (simp add: newCommit_fields)
    show "basedOn ?cmt < 2 ^ 63" using b by (simp add: newCommit_fields)
  qed (simp_all add: newCommit_fields p tf q fmtX_no_sep)
  then have des: "deserializeCommit lib (dropCR ?line) = Inr (?cmt\<lparr>cwhen := t\<rparr>)"
    by (simp add: dcr)
  have "loadCommits lib idx w' =
     Inr (idx\<lparr>commits := SortFunc (logRecords lib old @ [?cmt\<lparr>cwhen := t\<rparr>])\<rparr>)"
    using load old new nonl len des by (rule loadCommits_append_line)
  with t show "\<exists>t. timeParse lib (timeFormat lib now) = Some t \<and>
           loadCommits lib idx w' =
             Inr (idx\<lparr>commits := SortFunc (logRecords lib old @ [?cmt\<lparr>cwhen := t\<rparr>])\<rparr>)"
    by blast
qed



lemma findCommit_Some:
  "findCommit cs p v = Some c \<Longrightarrow> c \<in> set cs \<and> path c = p \<and> version c = v"
  by (induction cs) (auto split: if_splits)

lemma currVersion_foldl_upper:
  "c \<in> set cs \<Longrightarrow> path c = p \<Longrightarrow>
   version c \<le> foldl (\<lambda>v cmt. if path cmt = p \<and> version cmt > v then version cmt else v) v0 cs"
proof (induction cs arbitrary: v0)
  case Nil
  then show ?case by simp
next
  case (Cons d cs)
  let ?v1 = "if path d = p \<and> version d > v0 then version d else v0"
  show ?case
  proof (cases "c = d")
    case True
    with Cons.prems have "version c \<le> ?v1" by simp
    also have "?v1 \<le> foldl (\<lambda>v cmt. if path cmt = p \<and> version cmt > v then version cmt else v) ?v1 cs"
      by (rule currVersion_foldl_ge)
    finally show ?thesis by simp
  next
    case False
    with Cons.prems have "c \<in> set cs" by simp
    from Cons.IH [OF this Cons.prems(2), of ?v1] show ?thesis by simp
  qed
qed

lemma currVersion_foldl_mem:
  "foldl (\<lambda>v cmt. if path cmt = p \<and> version cmt > v then version cmt else v) v0 cs = v0 \<or>
   (\<exists>c \<in> set cs. path c = p \<and>
      version c = foldl (\<lambda>v cmt. if path cmt = p \<and> version cmt > v then version cmt else v) v0 cs)"
proof (induction cs arbitrary: v0)
  case Nil
  show ?case by simp
next
  case (Cons d cs)
  let ?f = "\<lambda>v cmt. if path cmt = p \<and> version cmt > v then version cmt else v"
  let ?v1 = "if path d = p \<and> version d > v0 then version d else v0"
  have step: "foldl ?f v0 (d # cs) = foldl ?f ?v1 cs" by simp
  from Cons.IH [of ?v1] have "foldl ?f ?v1 cs = ?v1 \<or>
     (\<exists>c \<in> set cs. path c = p \<and> version c = foldl ?f ?v1 cs)" .
  then show ?case
  proof
    assume e: "foldl ?f ?v1 cs = ?v1"
    have r: "foldl ?f v0 (d # cs) = ?v1" by (simp only: step e)
    show ?thesis
    proof (cases "path d = p \<and> version d > v0")
      case True
      then have "?v1 = version d" by simp
      with r have "version d = foldl ?f v0 (d # cs)" by simp
      moreover have "d \<in> set (d # cs)" by simp
      ultimately show ?thesis using True by blast
    next
      case False
      then have "?v1 = v0" by simp
      with r have "foldl ?f v0 (d # cs) = v0" by simp
      then show ?thesis by blast
    qed
  next
    assume "\<exists>c \<in> set cs. path c = p \<and> version c = foldl ?f ?v1 cs"
    then obtain c where "c \<in> set cs" "path c = p" "version c = foldl ?f ?v1 cs" by blast
    then have "c \<in> set (d # cs) \<and> path c = p \<and> version c = foldl ?f v0 (d # cs)"
      by (simp only: step) simp
    then show ?thesis by blast
  qed
qed

lemma currVersion_upper:
  "c \<in> set (commits idx) \<Longrightarrow> path c = p \<Longrightarrow> version c \<le> currVersion idx p"
  unfolding currVersion_def by (rule currVersion_foldl_upper)

lemma currVersion_mem:
  "currVersion idx p = 0 \<or>
   (\<exists>c \<in> set (commits idx). path c = p \<and> version c = currVersion idx p)"
  unfolding currVersion_def by (rule currVersion_foldl_mem)

text \<open>\<open>currVersion\<close> is the highest version of the path, or 0 when no version is higher.\<close>

lemma currVersion_Max:
  "currVersion idx p = Max (insert 0 {version c |c. c \<in> set (commits idx) \<and> path c = p})"
proof (rule Max_eqI [symmetric])
  show "finite (insert 0 {version c |c. c \<in> set (commits idx) \<and> path c = p})" by simp
  show "y \<le> currVersion idx p"
    if "y \<in> insert 0 {version c |c. c \<in> set (commits idx) \<and> path c = p}" for y
    using that currVersion_nonneg [of idx p] currVersion_upper [of _ idx p] by auto
  show "currVersion idx p \<in> insert 0 {version c |c. c \<in> set (commits idx) \<and> path c = p}"
  proof (cases "currVersion idx p = 0")
    case True
    then show ?thesis by simp
  next
    case False
    with currVersion_mem [of idx p] obtain c where "c \<in> set (commits idx)" "path c = p"
      "version c = currVersion idx p" by blast
    then have "currVersion idx p \<in> {version c |c. c \<in> set (commits idx) \<and> path c = p}"
      by (metis (mono_tags, lifting) mem_Collect_eq)
    then show ?thesis by simp
  qed
qed



lemma loaded_commits:
  assumes "loadCommits lib idx w = Inr idx" and "fs w (commitsFile idx) = Some old"
  shows "commits idx = SortFunc (logRecords lib old)"
proof -
  from assms have "idx = idx\<lparr>commits := SortFunc (logRecords lib old)\<rparr>"
    unfolding loadCommits_Inr_logRecords by auto
  then have "commits idx = commits (idx\<lparr>commits := SortFunc (logRecords lib old)\<rparr>)" by simp
  then show ?thesis by simp
qed

text \<open>
  What holds for a path without tab and newline. After a successful commit of such a
  path, on files whose index is empty or ends in a newline, the next
  run loads the index, extracts the committed bytes under the version
  \<open>currVersion + 1\<close>, and finds that version to be the current one of the path, with the
  current versions of the other paths as they were.
\<close>

lemma commit_then_extract:
  assumes lib: "libOk lib" and p: "tab \<notin> set p" "nl \<notin> set p"
    and load: "loadCommits lib idx w = Inr idx"
    and old: "fs w (commitsFile idx) = Some old" "old = [] \<or> last old = nl"
    and cf: "commitsFile idx = Join (workDir idx) ''index''"
    and ok: "commit lib now env idx w p b msg = (None, w')"
    and data: "fs w p = Some data"
    and v: "currVersion idx p + 1 < 2 ^ 63" and b: "- (2 ^ 63) \<le> b" "b < 2 ^ 63"
    and len: "length (serialize lib (newCommit lib now idx p b msg data)) < MaxScanTokenSize"
  shows "\<exists>idx'. loadCommits lib idx w' = Inr idx' \<and>
           index_extract idx' w' p (currVersion idx p + 1) = Inr data \<and>
           currVersion idx' p = currVersion idx p + 1 \<and>
           (\<forall>p'. p' \<noteq> p \<longrightarrow> currVersion idx' p' = currVersion idx p')"
proof -
  let ?cmt = "newCommit lib now idx p b msg data"
  from commit_then_load [OF lib p load old cf ok data v b len]
  obtain t where t: "timeParse lib (timeFormat lib now) = Some t"
    and l: "loadCommits lib idx w' =
       Inr (idx\<lparr>commits := SortFunc (logRecords lib old @ [?cmt\<lparr>cwhen := t\<rparr>])\<rparr>)"
    and f: "fs w' (filePath idx ?cmt) = Some data"
    by blast
  let ?c = "?cmt\<lparr>cwhen := t\<rparr>"
  let ?idx' = "idx\<lparr>commits := SortFunc (logRecords lib old @ [?c])\<rparr>"
  have cs: "set (commits ?idx') = insert ?c (set (commits idx))"
    by (simp add: set_SortFunc loaded_commits [OF load old(1)])
  have vr: "version ?c = currVersion idx p + 1" using newCommit_version [OF v] by simp
  have pc: "path ?c = p" by (simp add: newCommit_fields)
  have "findCommit (commits ?idx') p (currVersion idx p + 1) \<noteq> None"
    unfolding findCommit_None_iff using cs vr pc by blast
  then obtain c where c: "findCommit (commits ?idx') p (currVersion idx p + 1) = Some c" by blast
  then have cm: "c \<in> set (commits ?idx')" "path c = p" "version c = currVersion idx p + 1"
    using findCommit_Some by blast+
  have "c = ?c"
  proof (rule ccontr)
    assume "c \<noteq> ?c"
    with cm(1) cs have "c \<in> set (commits idx)" by blast
    then have "version c \<le> currVersion idx p" using cm(2) by (rule currVersion_upper)
    with cm(3) show False by simp
  qed
  with c have found: "findCommit (commits ?idx') p (currVersion idx p + 1) = Some ?c" by simp
  have fp: "filePath ?idx' ?c = filePath idx ?cmt" by (simp add: filePath_def)
  have crc: "dataCrc ?c = ChecksumIEEE data" by (simp add: newCommit_fields)
  have ex: "index_extract ?idx' w' p (currVersion idx p + 1) = Inr data"
    unfolding index_extract_def found option.case fp f crc by simp
  have up: "currVersion ?idx' p = currVersion idx p + 1"
  proof (rule antisym)
    show "currVersion idx p + 1 \<le> currVersion ?idx' p"
      using currVersion_upper [of ?c ?idx' p] cs pc vr by simp
    show "currVersion ?idx' p \<le> currVersion idx p + 1"
    proof (cases "currVersion ?idx' p = 0")
      case True
      then show ?thesis using currVersion_nonneg [of idx p] by simp
    next
      case False
      with currVersion_mem [of ?idx' p] obtain d where d: "d \<in> set (commits ?idx')" "path d = p"
        "version d = currVersion ?idx' p" by blast
      show ?thesis
      proof (cases "d = ?c")
        case True
        with d(3) vr show ?thesis by simp
      next
        case False
        with d(1) cs have "d \<in> set (commits idx)" by blast
        then have "version d \<le> currVersion idx p" using d(2) by (rule currVersion_upper)
        with d(3) show ?thesis by simp
      qed
    qed
  qed
  have others: "\<forall>p'. p' \<noteq> p \<longrightarrow> currVersion ?idx' p' = currVersion idx p'"
  proof (intro allI impI)
    fix p' assume "p' \<noteq> p"
    then have "{version c |c. c \<in> set (commits ?idx') \<and> path c = p'} =
        {version c |c. c \<in> set (commits idx) \<and> path c = p'}"
      using cs pc by auto
    then show "currVersion ?idx' p' = currVersion idx p'"
      by (simp only: currVersion_Max)
  qed
  from l ex up others show ?thesis by blast
qed


lemma escape_no_sep: "tab \<notin> set (escape c)" "nl \<notin> set (escape c)" "cr \<notin> set (escape c)"
  by (simp_all add: escape_def)

lemma libOk_lib0: "libOk lib0"
  by (simp add: libOk_def lib0_def stamp_def quoteAscii_def escape_no_sep)

lemma loadCommits_w1: "loadCommits lib0 idx0 w1 = Inr idx0"
  by (simp add: loadCommits_def w1_fields idx0_fields rawLines_Nil SortFunc_def idx0_def)

lemma commit_then_extract_instance:
  "fst (commit lib0 () env0 idx0 w1 ''/d'' 0 ''m'') = None \<and>
   (\<exists>idx'. loadCommits lib0 idx0 (snd (commit lib0 () env0 idx0 w1 ''/d'' 0 ''m'')) = Inr idx' \<and>
      index_extract idx' (snd (commit lib0 () env0 idx0 w1 ''/d'' 0 ''m'')) ''/d'' 1 = Inr ''hello'' \<and>
      currVersion idx' ''/d'' = 1)"
proof -
  let ?r = "commit lib0 () env0 idx0 w1 ''/d'' 0 ''m''"
  have ok: "fst ?r = None"
    unfolding commit_None_iff
    by (simp add: w1_fields currVersion_idx0 env0_fields idx0_fields filePath_d)
  then have r: "?r = (None, snd ?r)" by (metis prod.collapse)
  have cmt: "newCommit lib0 () idx0 ''/d'' 0 ''m'' ''hello'' = cmt1"
    by (simp add: newCommit_d cmt1_def)
  have len: "length (serialize lib0 (newCommit lib0 () idx0 ''/d'' 0 ''m'' ''hello'')) < MaxScanTokenSize"
    by (simp add: cmt serialize_cmt1 length_line1)
  have "\<exists>idx'. loadCommits lib0 idx0 (snd ?r) = Inr idx' \<and>
           index_extract idx' (snd ?r) ''/d'' (currVersion idx0 ''/d'' + 1) = Inr ''hello'' \<and>
           currVersion idx' ''/d'' = currVersion idx0 ''/d'' + 1 \<and>
           (\<forall>p'. p' \<noteq> ''/d'' \<longrightarrow> currVersion idx' p' = currVersion idx0 p')"
  proof (rule commit_then_extract [OF libOk_lib0 _ _ loadCommits_w1 _ _ _ r _ _ _ _ len])
    show "fs w1 (commitsFile idx0) = Some []" by (simp add: w1_fields idx0_fields)
    show "commitsFile idx0 = Join (workDir idx0) ''index''" by (simp add: idx0_fields Join_def)
    show "fs w1 ''/d'' = Some ''hello''" by (simp add: w1_fields)
  qed (simp_all add: currVersion_idx0)
  then show ?thesis using ok by (simp add: currVersion_idx0) blast
qed

end
